theory Spec2Isabelle
  imports Main "HOL-Library.Sublist" "HOL-Library.Multiset"
begin

section \<open>JavaScript strings and errors\<close>

text \<open>
  A JavaScript string is modelled as a \<open>string\<close>: a \<open>char\<close> stands for one code unit
  below 256 (code units above that are outside the model's alphabet). An error value is
  an \<open>Error\<close> object, identified by its \<open>message\<close>; the only engine-raised error the
  modelled code can produce is the \<open>TypeError\<close> of reading a property of \<open>undefined\<close>
  or of iterating a non-iterable value.
\<close>

datatype js_error = Error string | TypeError string

fun message :: "js_error \<Rightarrow> string" where
  "message (Error m) = m"
| "message (TypeError m) = m"

text \<open>\<open>lastError?.message\<close> inside a template literal: \<open>null?.message\<close> is \<open>undefined\<close>.\<close>

fun opt_message :: "js_error option \<Rightarrow> string" where
  "opt_message None = ''undefined''"
| "opt_message (Some e) = message e"

definition undefined_trim :: js_error where
  "undefined_trim = TypeError ''Cannot read properties of undefined (reading 'trim')''"

text \<open>Decimal rendering of a number inside a template literal (\<open>`${n}`\<close>).\<close>

definition digit_char :: "nat \<Rightarrow> char" where
  "digit_char d = ''0123456789'' ! d"

fun show_nat :: "nat \<Rightarrow> string" where
  "show_nat n =
     (if n < 10 then [digit_char n] else show_nat (n div 10) @ [digit_char (n mod 10)])"

declare show_nat.simps [simp del]

text \<open>
  \<open>String.prototype.trim\<close> removes white space and line terminators from both ends;
  below 256 these are TAB, LF, VT, FF, CR, SPACE and NBSP.
\<close>

definition is_white_space :: "char \<Rightarrow> bool" where
  "is_white_space c \<longleftrightarrow>
     c \<in> {CHR 0x09, CHR 0x0A, CHR 0x0B, CHR 0x0C, CHR 0x0D, CHR 0x20, CHR 0xA0}"

definition js_trim :: "string \<Rightarrow> string" where
  "js_trim s = rev (dropWhile is_white_space (rev (dropWhile is_white_space s)))"

text \<open>\<open>Array.prototype.join\<close> on an array of strings.\<close>

fun js_join :: "string \<Rightarrow> string list \<Rightarrow> string" where
  "js_join sep [] = []"
| "js_join sep [x] = x"
| "js_join sep (x # y # ys) = x @ sep @ js_join sep (y # ys)"

text \<open>\<open>Array.prototype.slice(start, end)\<close> for \<open>0 \<le> start\<close> and \<open>0 \<le> end\<close>.\<close>

definition slice :: "nat \<Rightarrow> nat \<Rightarrow> 'a list \<Rightarrow> 'a list" where
  "slice start end xs = take (end - start) (drop start xs)"

text \<open>\<open>text.split("\n")\<close>: always at least one piece.\<close>

fun split_nl :: "string \<Rightarrow> string list" where
  "split_nl [] = [[]]"
| "split_nl (c # cs) =
     (if c = CHR 0x0A then [] # split_nl cs
      else (case split_nl cs of [] \<Rightarrow> [[c]] | l # ls \<Rightarrow> (c # l) # ls))"

section \<open>Page OCR worker\<close>

definition fence :: string where
  "fence = ''```''"

text \<open>
  The "Clean code blocks" step of the worker:
  \<^verbatim>\<open>
  if (text.startsWith("```")) {
    const lines = text.split("\n");
    lines.shift();
    if (lines[lines.length - 1].trim() === "```") lines.pop();
    text = lines.join("\n");
  }
  \<close>
  \<open>shift\<close> on the pieces is \<open>tl\<close>. When nothing is left, \<open>lines[-1]\<close> is \<open>undefined\<close>
  and calling \<open>trim\<close> on it throws.
\<close>

definition clean_code_blocks :: "string \<Rightarrow> js_error + string" where
  "clean_code_blocks text =
     (if prefix fence text then
        (let lines = tl (split_nl text) in
         if lines = [] then Inl undefined_trim
         else Inr (js_join [CHR 0x0A]
                (if js_trim (last lines) = fence then butlast lines else lines)))
      else Inr text)"

text \<open>
  The remote model and the scheduling of the promises are outside the program. For the
  call made for page \<open>pageNumber\<close> on attempt \<open>attempt\<close> of its chunk,
  \<open>generateContent\<close> is what reading the image, the remote call and \<open>response.text()\<close>
  yield (\<open>Inl\<close> the error thrown, \<open>Inr\<close> the response text), and \<open>settle_time\<close> is the
  instant at which the page's promise settles.
\<close>

record 'img ocr_env =
  generateContent :: "'img \<Rightarrow> nat \<Rightarrow> nat \<Rightarrow> js_error + string"
  settle_time :: "nat \<Rightarrow> nat \<Rightarrow> nat"

text \<open>
  One callback of \<open>chunk.map(async (imagePath, index) => ...)\<close>. \<open>updateProgress\<close>
  catches every error of its own, so it has no part in the control flow.
\<close>

definition page_worker ::
  "'img ocr_env \<Rightarrow> 'img \<Rightarrow> nat \<Rightarrow> nat \<Rightarrow> js_error + (nat \<times> string)" where
  "page_worker env imagePath pageNumber attempt =
     (case generateContent env imagePath pageNumber attempt of
        Inl e \<Rightarrow> Inl e
      | Inr response \<Rightarrow>
          (case clean_code_blocks (js_trim response) of
             Inl e \<Rightarrow> Inl e
           | Inr text \<Rightarrow> Inr (pageNumber, text)))"

section \<open>Chunk scheduler\<close>

definition CHUNK_SIZE :: nat where
  "CHUNK_SIZE = 2"

definition MAX_RETRIES :: nat where
  "MAX_RETRIES = 2"

definition separator :: string where
  "separator = [CHR 0x0A, CHR 0x0A, CHR ''-'', CHR ''-'', CHR ''-'', CHR 0x0A, CHR 0x0A]"

text \<open>
  \<open>Promise.all\<close> over promises given with their settle times: when all fulfil, the
  values in the order of the input array; otherwise the reason of the promise that
  rejects first in time (the earlier index on a tie).
\<close>

fun first_rejection :: "(nat \<times> (js_error + 'a)) list \<Rightarrow> (nat \<times> js_error) option" where
  "first_rejection [] = None"
| "first_rejection ((t, Inr v) # ps) = first_rejection ps"
| "first_rejection ((t, Inl e) # ps) =
     (case first_rejection ps of
        None \<Rightarrow> Some (t, e)
      | Some (t', e') \<Rightarrow> if t' < t then Some (t', e') else Some (t, e))"

fun fulfilled :: "(nat \<times> (js_error + 'a)) list \<Rightarrow> 'a list" where
  "fulfilled [] = []"
| "fulfilled ((t, Inr v) # ps) = v # fulfilled ps"
| "fulfilled ((t, Inl e) # ps) = fulfilled ps"

definition promise_all :: "(nat \<times> (js_error + 'a)) list \<Rightarrow> js_error + 'a list" where
  "promise_all ps =
     (case first_rejection ps of
        Some (t, e) \<Rightarrow> Inl e
      | None \<Rightarrow> Inr (fulfilled ps))"

text \<open>
  The body of the \<open>try\<close> of one attempt: all pages of the chunk in parallel, then
  \<^verbatim>\<open>
  chunkMarkdown = chunkResults
    .sort((a, b) => a.pageNumber - b.pageNumber)
    .map((result) => result.text)
    .join("\n\n---\n\n");
  \<close>
  \<open>Array.prototype.sort\<close> is stable, as \<open>sort_key\<close> is.
\<close>

definition chunkPromises ::
  "'img ocr_env \<Rightarrow> nat \<Rightarrow> 'img list \<Rightarrow> nat \<Rightarrow> (nat \<times> (js_error + (nat \<times> string))) list" where
  "chunkPromises env chunkStart chunk attempt =
     map (\<lambda>(index, imagePath).
            (settle_time env (chunkStart + index + 1) attempt,
             page_worker env imagePath (chunkStart + index + 1) attempt))
         (enumerate 0 chunk)"

definition attempt_chunk ::
  "'img ocr_env \<Rightarrow> nat \<Rightarrow> 'img list \<Rightarrow> nat \<Rightarrow> js_error + string" where
  "attempt_chunk env chunkStart chunk attempt =
     (case promise_all (chunkPromises env chunkStart chunk attempt) of
        Inl e \<Rightarrow> Inl e
      | Inr chunkResults \<Rightarrow>
          Inr (js_join separator (map snd (sort_key fst chunkResults))))"

text \<open>
  What the scheduler does besides computing text: the chunk it starts (number, first and
  last page), the attempts it makes and the delays it waits, in order.
\<close>

datatype event = is_ChunkBegin: ChunkBegin nat nat nat | Attempt nat | Delay nat

text \<open>
  The loop \<open>for (let attempt = 1; attempt <= MAX_RETRIES + 1; attempt++)\<close> from
  \<open>attempt\<close> on. \<open>Inr chunkMarkdown\<close> is \<open>chunkSuccess\<close>; \<open>Inl lastError\<close> is the loop
  running out.
\<close>

function attempt_loop ::
  "'img ocr_env \<Rightarrow> nat \<Rightarrow> 'img list \<Rightarrow> nat \<Rightarrow> js_error option
     \<Rightarrow> (js_error option + string) \<times> event list" where
  "attempt_loop env chunkStart chunk attempt lastError =
     (if attempt \<le> MAX_RETRIES + 1 then
        (case attempt_chunk env chunkStart chunk attempt of
           Inr chunkMarkdown \<Rightarrow> (Inr chunkMarkdown, [Attempt attempt])
         | Inl error \<Rightarrow>
             (let (r, tr) = attempt_loop env chunkStart chunk (attempt + 1) (Some error)
              in (r, Attempt attempt #
                     (if attempt \<le> MAX_RETRIES then [Delay (1000 * attempt)] else []) @ tr)))
      else (Inl lastError, []))"
  by pat_completeness auto
termination
  by (relation "measure (\<lambda>(env, chunkStart, chunk, attempt, lastError). MAX_RETRIES + 2 - attempt)")
     auto

declare attempt_loop.simps [simp del]

text \<open>
  The loop over the chunks from \<open>chunkStart\<close> on, with \<open>fullMarkdown\<close> as accumulated so
  far. A chunk that runs out of attempts throws, which ends the loop.
\<close>

function chunk_loop ::
  "'img ocr_env \<Rightarrow> 'img list \<Rightarrow> nat \<Rightarrow> string \<Rightarrow> (js_error + string) \<times> event list" where
  "chunk_loop env images chunkStart fullMarkdown =
     (if chunkStart < length images then
        (let chunkEnd = min (chunkStart + CHUNK_SIZE) (length images);
             chunk = slice chunkStart chunkEnd images;
             chunkNumber = chunkStart div CHUNK_SIZE + 1;
             started = ChunkBegin chunkNumber (chunkStart + 1) chunkEnd
         in (case attempt_loop env chunkStart chunk 1 None of
               (Inl lastError, tr) \<Rightarrow>
                 (Inl (Error (''Failed to process chunk '' @ show_nat chunkNumber @ '': '' @
                              opt_message lastError)),
                  started # tr)
             | (Inr chunkMarkdown, tr) \<Rightarrow>
                 (let (r, tr') =
                        chunk_loop env images (chunkStart + CHUNK_SIZE)
                          (fullMarkdown @ chunkMarkdown @
                           (if chunkEnd < length images then separator else []))
                  in (r, started # tr @ tr'))))
      else (Inr fullMarkdown, []))"
  by pat_completeness auto
termination
  by (relation "measure (\<lambda>(env, images, chunkStart, fullMarkdown). length images - chunkStart)")
     (auto simp: CHUNK_SIZE_def)

declare chunk_loop.simps [simp del]

definition ocr_phase :: "'img ocr_env \<Rightarrow> 'img list \<Rightarrow> (js_error + string) \<times> event list" where
  "ocr_phase env images = chunk_loop env images 0 []"

section \<open>JSON values and responses\<close>

text \<open>
  A parsed JSON value. An object is the map of its properties; a number is modelled as an
  integer (only whether it is zero matters below).
\<close>

datatype json = JNull | JBool bool | JNum int | JStr string | JArr "json list"
  | JObj "string \<Rightarrow> json option"

type_synonym obj = "string \<rightharpoonup> json"

text \<open>\<open>Boolean(v)\<close>.\<close>

fun truthy :: "json \<Rightarrow> bool" where
  "truthy JNull = False"
| "truthy (JBool b) = b"
| "truthy (JNum n) = (n \<noteq> 0)"
| "truthy (JStr s) = (s \<noteq> [])"
| "truthy (JArr xs) = True"
| "truthy (JObj m) = True"

text \<open>\<open>a || b\<close>, where \<open>None\<close> is \<open>undefined\<close>.\<close>

definition or_else :: "json option \<Rightarrow> json \<Rightarrow> json" where
  "or_else a b = (case a of None \<Rightarrow> b | Some v \<Rightarrow> if truthy v then v else b)"

text \<open>
  \<open>NextResponse.json(body, { status })\<close>, and the response that carries the bytes of
  the rendered document.
\<close>

datatype response = JsonResponse nat json | PdfResponse string

definition error_body :: "string \<Rightarrow> json" where
  "error_body m = JObj [''error'' \<mapsto> JStr m]"

section \<open>Progress store\<close>

text \<open>
  The module-level \<open>progressStore\<close> (a \<open>Map\<close> keyed by strings), the pending timers set
  by \<open>setTimeout\<close> (deadline and job id, in the order they were set) and the clock, in
  milliseconds.
\<close>

record server =
  progressStore :: "string \<rightharpoonup> obj"
  timers :: "(nat \<times> string) list"
  now :: nat

definition initial_server :: server where
  "initial_server = \<lparr>progressStore = Map.empty, timers = [], now = 0\<rparr>"

definition default_progress :: obj where
  "default_progress =
     [''totalPages'' \<mapsto> JNum 0, ''processedPages'' \<mapsto> JNum 0, ''currentChunk'' \<mapsto> JNum 0,
      ''totalChunks'' \<mapsto> JNum 0, ''status'' \<mapsto> JStr ''starting'', ''logs'' \<mapsto> JArr []]"

text \<open>
  The own enumerable properties that \<open>{...v}\<close> copies: those of an object, the indices
  of an array or of a string, none of a number or a boolean.
\<close>

definition index_props :: "json list \<Rightarrow> obj" where
  "index_props xs = map_of (zip (map show_nat [0..<length xs]) xs)"

fun spread :: "json \<Rightarrow> obj" where
  "spread (JObj m) = m"
| "spread (JArr xs) = index_props xs"
| "spread (JStr s) = index_props (map (\<lambda>c. JStr [c]) s)"
| "spread v = Map.empty"

text \<open>\<open>update.log\<close> for an \<open>update\<close> that is not \<open>null\<close>: only an object can have it.\<close>

fun prop_log :: "json \<Rightarrow> json option" where
  "prop_log (JObj m) = m ''log''"
| "prop_log v = None"

text \<open>\<open>[...v]\<close>: an array or a string is iterable, the other values throw.\<close>

fun iterate :: "json \<Rightarrow> js_error + json list" where
  "iterate (JArr xs) = Inr xs"
| "iterate (JStr s) = Inr (map (\<lambda>c. JStr [c]) s)"
| "iterate v = Inl (TypeError ''value is not iterable'')"

text \<open>\<open>xs.slice(-50)\<close>.\<close>

definition last50 :: "'a list \<Rightarrow> 'a list" where
  "last50 xs = drop (length xs - 50) xs"

text \<open>
  \<open>GET /api/progress?fileId=...\<close>; \<open>None\<close> is a missing query parameter.
\<close>

definition GET_progress :: "server \<Rightarrow> string option \<Rightarrow> response" where
  "GET_progress srv fileId =
     (case fileId of
        None \<Rightarrow> JsonResponse 400 (error_body ''fileId required'')
      | Some fid \<Rightarrow>
          if fid = [] then JsonResponse 400 (error_body ''fileId required'')
          else (case progressStore srv fid of
                  None \<Rightarrow> JsonResponse 404 (error_body ''Progress not found'')
                | Some progress \<Rightarrow> JsonResponse 200 (JObj progress)))"

text \<open>
  \<open>POST /api/progress\<close> with the parsed body's \<open>fileId\<close> (a string, as the store's key
  type has it) and \<open>update\<close>; \<open>None\<close> is a missing property.
  \<^verbatim>\<open>
  const updated = {
    ...existing,
    ...update,
    logs: [...(existing.logs || []), update.log || ''].filter(Boolean).slice(-50),
  }
  progressStore.set(fileId, updated)
  setTimeout(() => { progressStore.delete(fileId) }, 3600000)
  \<close>
  An error thrown on the way is caught and answered with status 400.
\<close>

definition POST_progress ::
  "server \<Rightarrow> string option \<Rightarrow> json option \<Rightarrow> response \<times> server" where
  "POST_progress srv fileId update =
     (case (fileId, update) of
        (Some fid, Some u) \<Rightarrow>
          if fid = [] \<or> \<not> truthy u
          then (JsonResponse 400 (error_body ''fileId and update required''), srv)
          else
            (let existing = (case progressStore srv fid of
                               None \<Rightarrow> default_progress
                             | Some progress \<Rightarrow> progress)
             in case iterate (or_else (existing ''logs'') (JArr [])) of
                  Inl e \<Rightarrow> (JsonResponse 400 (error_body ''Invalid request''), srv)
                | Inr logs \<Rightarrow>
                    (let updated = (existing ++ spread u)
                           (''logs'' \<mapsto>
                              JArr (last50 (filter truthy (logs @ [or_else (prop_log u) (JStr [])]))))
                     in (JsonResponse 200 (JObj [''success'' \<mapsto> JBool True]),
                         srv\<lparr>progressStore := (progressStore srv)(fid \<mapsto> updated),
                             timers := timers srv @ [(now srv + 3600000, fid)]\<rparr>)))
      | _ \<Rightarrow> (JsonResponse 400 (error_body ''fileId and update required''), srv))"

text \<open>
  Time passes until \<open>t\<close>: the timers due by then fire in the order they were set, each
  running \<open>progressStore.delete(fileId)\<close>.
\<close>

definition advance :: "nat \<Rightarrow> server \<Rightarrow> server" where
  "advance t srv =
     srv\<lparr>progressStore :=
           fold (\<lambda>(deadline, fid) store. if deadline \<le> t then store(fid := None) else store)
             (timers srv) (progressStore srv),
         timers := filter (\<lambda>(deadline, fid). \<not> deadline \<le> t) (timers srv),
         now := max (now srv) t\<rparr>"

text \<open>An update posted at time \<open>t\<close>, and a sequence of them.\<close>

definition post_at :: "nat \<Rightarrow> string option \<Rightarrow> json option \<Rightarrow> server \<Rightarrow> server" where
  "post_at t fileId update srv =
     snd (POST_progress (advance t srv) fileId update)"

fun run_posts :: "(nat \<times> string option \<times> json option) list \<Rightarrow> server \<Rightarrow> server" where
  "run_posts [] srv = srv"
| "run_posts ((t, fileId, update) # reqs) srv = run_posts reqs (post_at t fileId update srv)"

section \<open>Rasterizer selector\<close>

text \<open>
  The converters are outside the program; what the handler sees of each is given.
  \<^item> pdf2pic: whether \<open>require("pdf2pic")\<close> and \<open>fromPath\<close> succeed, and for each page
    whether \<open>convert(i, ...)\<close> throws, returns no \<open>base64\<close> or returns one;
  \<^item> \<open>magick\<close>, \<open>convert\<close>, \<open>gm convert\<close>: whether the command (or the directory read
    after it) throws, and otherwise \<open>imageFiles\<close>: the files of the images directory
    named after the job, sorted;
  \<^item> Puppeteer: whether the browser launches, whether rendering page \<open>i\<close> (from 0)
    throws, and whether \<open>browser.close()\<close> succeeds.
  \<open>page_png i\<close> is the path \<open>`${fileId}.${i}.png`\<close> in the images directory.
\<close>

datatype convert_result = ConvertThrows | NoBase64 | Base64

datatype 'img command_result = CommandThrows | ImageFiles "'img list"

datatype screenshot_result = PageThrows | Screenshot

record 'img rasterizers =
  pdf2pic_loads :: bool
  pdf2pic_convert :: "nat \<Rightarrow> convert_result"
  page_png :: "nat \<Rightarrow> 'img"
  magick :: "'img command_result"
  convert :: "'img command_result"
  gm_convert :: "'img command_result"
  puppeteer_launches :: bool
  puppeteer_page :: "nat \<Rightarrow> screenshot_result"
  browser_closes :: bool

text \<open>
  Each method maps \<open>(conversionSuccess, images)\<close> to their values after it. The loops
  return whether they ran to the end, with \<open>images\<close> as pushed so far.
\<close>

fun pdf2pic_loop :: "'img rasterizers \<Rightarrow> nat list \<Rightarrow> 'img list \<Rightarrow> bool \<times> 'img list" where
  "pdf2pic_loop r [] images = (True, images)"
| "pdf2pic_loop r (i # pages) images =
     (case pdf2pic_convert r i of
        ConvertThrows \<Rightarrow> (False, images)
      | NoBase64 \<Rightarrow> pdf2pic_loop r pages images
      | Base64 \<Rightarrow> pdf2pic_loop r pages (images @ [page_png r i]))"

definition method1_pdf2pic :: "'img rasterizers \<Rightarrow> nat \<Rightarrow> bool \<times> 'img list" where
  "method1_pdf2pic r pageCount =
     (if \<not> pdf2pic_loads r then (False, [])
      else (case pdf2pic_loop r [1..<pageCount + 1] [] of
              (finished, images) \<Rightarrow> (finished \<and> length images = pageCount, images)))"

definition method_command :: "'img command_result \<Rightarrow> bool \<times> 'img list \<Rightarrow> bool \<times> 'img list" where
  "method_command result state =
     (case state of
        (conversionSuccess, images) \<Rightarrow>
          if \<not> conversionSuccess then
            (case result of
               CommandThrows \<Rightarrow> (False, [])
             | ImageFiles imageFiles \<Rightarrow>
                 if length imageFiles > 0 then (True, [] @ imageFiles) else (False, []))
          else (conversionSuccess, images))"

fun puppeteer_loop :: "'img rasterizers \<Rightarrow> nat list \<Rightarrow> 'img list \<Rightarrow> bool \<times> 'img list" where
  "puppeteer_loop r [] images = (True, images)"
| "puppeteer_loop r (i # pages) images =
     (case puppeteer_page r i of
        PageThrows \<Rightarrow> (False, images)
      | Screenshot \<Rightarrow> puppeteer_loop r pages (images @ [page_png r (i + 1)]))"

definition method5_puppeteer ::
  "'img rasterizers \<Rightarrow> nat \<Rightarrow> bool \<times> 'img list \<Rightarrow> bool \<times> 'img list" where
  "method5_puppeteer r pageCount state =
     (case state of
        (conversionSuccess, images) \<Rightarrow>
          if \<not> conversionSuccess then
            (if \<not> puppeteer_launches r then (False, [])
             else (case puppeteer_loop r [0..<pageCount] [] of
                     (finished, images') \<Rightarrow>
                       (finished \<and> browser_closes r \<and> length images' = pageCount, images')))
          else (conversionSuccess, images))"

text \<open>The body of the response when no method succeeded.\<close>

definition conversion_failed :: "nat \<Rightarrow> nat \<Rightarrow> json" where
  "conversion_failed pageCount got =
     JObj [''error'' \<mapsto> JStr ''Failed to convert PDF to images.'',
           ''details'' \<mapsto> JStr (''Attempted '' @ show_nat pageCount @ '' pages, got '' @
                                show_nat got @ '' images'')]"

text \<open>
  The five methods in order, then \<open>if (!conversionSuccess || images.length === 0)\<close>:
  \<open>Inl\<close> the body of the failure response, \<open>Inr\<close> the images to process.
\<close>

definition rasterize :: "'img rasterizers \<Rightarrow> nat \<Rightarrow> json + 'img list" where
  "rasterize r pageCount =
     (case method5_puppeteer r pageCount
             (method_command (gm_convert r)
               (method_command (convert r)
                 (method_command (magick r)
                   (method1_pdf2pic r pageCount)))) of
        (conversionSuccess, images) \<Rightarrow>
          if \<not> conversionSuccess \<or> length images = 0
          then Inl (conversion_failed pageCount (length images))
          else Inr images)"

section \<open>The conversion job\<close>

text \<open>
  One request to the conversion endpoint: whether the form has a file, the configured API
  key, what loading the document and counting its pages gives, the converters, the OCR
  service, and the rendering of the final markdown to the bytes of the document
  (\<open>marked\<close>, then Puppeteer's \<open>page.pdf\<close>, then reading the file back).
\<close>

record 'img job =
  file_present :: bool
  apiKey :: "string option"
  loaded_pageCount :: "js_error + nat"
  converters :: "'img rasterizers"
  ocr :: "'img ocr_env"
  render :: "string \<Rightarrow> js_error + string"

text \<open>The top-level \<open>catch\<close>: a thrown \<open>Error\<close> is answered with its message.\<close>

definition caught :: "js_error \<Rightarrow> response" where
  "caught e = JsonResponse 500 (error_body (message e))"

definition POST_convert :: "'img job \<Rightarrow> response" where
  "POST_convert j =
     (if \<not> file_present j then JsonResponse 400 (error_body ''No file provided'')
      else if (case apiKey j of None \<Rightarrow> True | Some k \<Rightarrow> k = [] \<or> js_trim k = [])
      then JsonResponse 500 (error_body ''GEMINI_API_KEY is not configured in .env file.'')
      else
        (case loaded_pageCount j of
           Inl e \<Rightarrow> caught e
         | Inr pageCount \<Rightarrow>
             (case rasterize (converters j) pageCount of
                Inl failure \<Rightarrow> JsonResponse 500 failure
              | Inr images \<Rightarrow>
                  (case fst (ocr_phase (ocr j) images) of
                     Inl e \<Rightarrow> caught e
                   | Inr fullMarkdown \<Rightarrow>
                       (case render j fullMarkdown of
                          Inl e \<Rightarrow> caught e
                        | Inr pdfBuffer \<Rightarrow> PdfResponse pdfBuffer)))))"

section \<open>Sample inputs\<close>

text \<open>
  A three-page job: page 2 settles before page 1, and the call for page 3 fails on the
  first attempt of its chunk.
\<close>

definition sample_images :: "nat list" where
  "sample_images = [10, 20, 30]"

definition sample_ocr :: "nat ocr_env" where
  "sample_ocr =
     \<lparr>generateContent = (\<lambda>img p a.
          if p = 3 \<and> a = 1 then Inl (Error ''overloaded'') else Inr (''page '' @ show_nat p)),
      settle_time = (\<lambda>p a. 10 - p)\<rparr>"

text \<open>The same pages with a service that answers every call, and with one that never answers for page 3.\<close>

definition first_try_ocr :: "nat ocr_env" where
  "first_try_ocr =
     \<lparr>generateContent = (\<lambda>img p a. Inr (''page '' @ show_nat p)),
      settle_time = (\<lambda>p a. p)\<rparr>"

definition failing_ocr :: "nat ocr_env" where
  "failing_ocr =
     \<lparr>generateContent = (\<lambda>img p a.
          if p = 3 then Inl (Error (''quota exceeded, attempt '' @ show_nat a))
          else Inr (''page '' @ show_nat p)),
      settle_time = (\<lambda>p a. p)\<rparr>"

text \<open>A job on a three-page document that pdf2pic converts; the rendered document is a string.\<close>

definition sample_converters :: "nat rasterizers" where
  "sample_converters =
     \<lparr>pdf2pic_loads = True, pdf2pic_convert = (\<lambda>i. Base64), page_png = (\<lambda>i. 10 * i),
      magick = CommandThrows, convert = CommandThrows, gm_convert = CommandThrows,
      puppeteer_launches = False, puppeteer_page = (\<lambda>i. PageThrows), browser_closes = False\<rparr>"

definition sample_job :: "nat job" where
  "sample_job =
     \<lparr>file_present = True, apiKey = Some ''key'', loaded_pageCount = Inr 3,
      converters = sample_converters, ocr = sample_ocr,
      render = (\<lambda>fullMarkdown. Inr (''PDF of '' @ fullMarkdown))\<rparr>"

text \<open>Five pages, and an update that carries a log line.\<close>

definition five_images :: "nat list" where
  "five_images = [10, 20, 30, 40, 50]"

definition sample_update :: json where
  "sample_update = JObj [''status'' \<mapsto> JStr ''Sending page 1'', ''log'' \<mapsto> JStr ''page 1 sent'']"

text \<open>
  Two runs on a four-page document. In the first, pdf2pic cannot be loaded and \<open>magick\<close>
  leaves three images. In the second, pdf2pic converts pages 1 and 2 (writing their files
  10 and 20, named \<open>`${fileId}.1.png`\<close> and \<open>`${fileId}.2.png`\<close>) and throws on page 3,
  then \<open>magick\<close> writes one file per page (100 to 103, named \<open>`${fileId}_00.png`\<close> to
  \<open>`${fileId}_03.png`\<close>): the directory read after it lists all six, and the sort puts
  the names with the underscore before those with the dot.
\<close>

definition short_converters :: "nat rasterizers" where
  "short_converters =
     \<lparr>pdf2pic_loads = False, pdf2pic_convert = (\<lambda>i. ConvertThrows), page_png = (\<lambda>i. 10 * i),
      magick = ImageFiles [100, 101, 102], convert = CommandThrows, gm_convert = CommandThrows,
      puppeteer_launches = True, puppeteer_page = (\<lambda>i. Screenshot), browser_closes = True\<rparr>"

definition leftover_converters :: "nat rasterizers" where
  "leftover_converters =
     \<lparr>pdf2pic_loads = True,
      pdf2pic_convert = (\<lambda>i. if i < 3 then Base64 else ConvertThrows),
      page_png = (\<lambda>i. 10 * i),
      magick = ImageFiles [100, 101, 102, 103, 10, 20],
      convert = CommandThrows, gm_convert = CommandThrows,
      puppeteer_launches = True, puppeteer_page = (\<lambda>i. Screenshot), browser_closes = True\<rparr>"

definition short_job :: "nat job" where
  "short_job =
     \<lparr>file_present = True, apiKey = Some ''key'', loaded_pageCount = Inr 4,
      converters = short_converters, ocr = first_try_ocr,
      render = (\<lambda>fullMarkdown. Inr (''PDF of '' @ fullMarkdown))\<rparr>"

text \<open>
  Two more runs on a four-page document, with no file left behind by a method that is
  not accepted. In the first, pdf2pic returns no \<open>base64\<close> for any page, \<open>magick\<close> finds
  no image and \<open>convert\<close> writes one file per page. In the second, no method produces
  an image: the commands throw and Puppeteer throws on the first page.
\<close>

definition fallthrough_converters :: "nat rasterizers" where
  "fallthrough_converters =
     \<lparr>pdf2pic_loads = True, pdf2pic_convert = (\<lambda>i. NoBase64), page_png = (\<lambda>i. 10 * i),
      magick = ImageFiles [], convert = ImageFiles [100, 101, 102, 103],
      gm_convert = CommandThrows,
      puppeteer_launches = True, puppeteer_page = (\<lambda>i. Screenshot), browser_closes = True\<rparr>"

definition exhausted_converters :: "nat rasterizers" where
  "exhausted_converters =
     \<lparr>pdf2pic_loads = True, pdf2pic_convert = (\<lambda>i. NoBase64), page_png = (\<lambda>i. 10 * i),
      magick = CommandThrows, convert = ImageFiles [], gm_convert = CommandThrows,
      puppeteer_launches = True, puppeteer_page = (\<lambda>i. PageThrows), browser_closes = True\<rparr>"

section \<open>The text of a chunk\<close>

lemma js_join_append:
  "xs \<noteq> [] \<Longrightarrow> ys \<noteq> [] \<Longrightarrow> js_join sep (xs @ ys) = js_join sep xs @ sep @ js_join sep ys"
  by (induction sep xs rule: js_join.induct) (auto simp: neq_Nil_conv)

lemma first_rejection_None:
  "first_rejection ps = None \<longleftrightarrow> (\<forall>p\<in>set ps. \<not> isl (snd p))"
  by (induction ps rule: first_rejection.induct) (auto split: option.splits)

lemma fulfilled_all:
  "\<forall>p\<in>set ps. \<not> isl (snd p) \<Longrightarrow> fulfilled ps = map (projr \<circ> snd) ps"
  by (induction ps rule: fulfilled.induct) auto

lemma promise_all_Inr:
  "promise_all ps = Inr vs \<longleftrightarrow> (\<forall>p\<in>set ps. \<not> isl (snd p)) \<and> vs = map (projr \<circ> snd) ps"
proof (cases "first_rejection ps")
  case None
  then have all: "\<forall>p\<in>set ps. \<not> isl (snd p)"
    using first_rejection_None [of ps] by blast
  show ?thesis
    using None all fulfilled_all [OF all] by (auto simp: promise_all_def)
next
  case (Some a)
  then have "\<not> (\<forall>p\<in>set ps. \<not> isl (snd p))"
    using first_rejection_None [of ps] by simp
  with Some show ?thesis
    by (cases a) (simp add: promise_all_def)
qed

lemma page_worker_fst:
  "page_worker env img p a = Inr r \<Longrightarrow> fst r = p"
  by (auto simp: page_worker_def split: sum.splits)

lemma chunkPromises_length: "length (chunkPromises env cs chunk a) = length chunk"
  by (simp add: chunkPromises_def)

lemma chunkPromises_nth:
  "i < length chunk \<Longrightarrow> chunkPromises env cs chunk a ! i =
     (settle_time env (Suc (cs + i)) a, page_worker env (chunk ! i) (Suc (cs + i)) a)"
  by (simp add: chunkPromises_def nth_enumerate_eq)

text \<open>The results of a chunk whose pages all succeeded, in the order of the pages.\<close>

lemma chunk_results:
  assumes "promise_all (chunkPromises env cs chunk a) = Inr rs"
  shows "length rs = length chunk"
    and "i < length chunk \<Longrightarrow>
      page_worker env (chunk ! i) (Suc (cs + i)) a = Inr (Suc (cs + i), snd (rs ! i))"
    and "map fst rs = map (\<lambda>i. Suc (cs + i)) [0..<length chunk]"
proof -
  let ?ps = "chunkPromises env cs chunk a"
  from assms have ok: "\<forall>p\<in>set ?ps. \<not> isl (snd p)" and rs_eq: "rs = map (projr \<circ> snd) ?ps"
    by (simp_all add: promise_all_Inr)
  show len: "length rs = length chunk"
    by (simp add: rs_eq chunkPromises_length)
  have w: "page_worker env (chunk ! i) (Suc (cs + i)) a = Inr (Suc (cs + i), snd (rs ! i)) \<and>
      fst (rs ! i) = Suc (cs + i)"
    if "i < length chunk" for i
  proof -
    from that have "?ps ! i \<in> set ?ps"
      by (simp add: chunkPromises_length)
    with ok have "\<not> isl (snd (?ps ! i))" by blast
    moreover have "snd (?ps ! i) = page_worker env (chunk ! i) (Suc (cs + i)) a"
      using that by (simp add: chunkPromises_nth)
    ultimately have "\<not> isl (page_worker env (chunk ! i) (Suc (cs + i)) a)" by simp
    then obtain r where r: "page_worker env (chunk ! i) (Suc (cs + i)) a = Inr r"
      by (cases "page_worker env (chunk ! i) (Suc (cs + i)) a") auto
    then have "rs ! i = r"
      using that by (simp add: rs_eq chunkPromises_length chunkPromises_nth)
    with r page_worker_fst [OF r] show ?thesis
      by (cases r) auto
  qed
  then show "i < length chunk \<Longrightarrow>
      page_worker env (chunk ! i) (Suc (cs + i)) a = Inr (Suc (cs + i), snd (rs ! i))"
    by simp
  show "map fst rs = map (\<lambda>i. Suc (cs + i)) [0..<length chunk]"
    by (rule nth_equalityI) (simp_all add: len w)
qed

lemma attempt_chunk_Inr:
  assumes "attempt_chunk env cs chunk a = Inr md"
  shows "\<exists>ts. length ts = length chunk \<and> md = js_join separator ts \<and>
           (\<forall>i<length chunk. page_worker env (chunk ! i) (Suc (cs + i)) a = Inr (Suc (cs + i), ts ! i))"
proof -
  from assms obtain rs where rs: "promise_all (chunkPromises env cs chunk a) = Inr rs"
    and md: "md = js_join separator (map snd (sort_key fst rs))"
    by (auto simp: attempt_chunk_def split: sum.splits)
  note res = chunk_results [OF rs]
  have "sorted (map fst rs)"
    unfolding res(3) by (simp add: sorted_map)
  then have "sort_key fst rs = rs"
    by (rule sort_key_id_if_sorted)
  with md have "md = js_join separator (map snd rs)" by simp
  moreover have "\<forall>i<length chunk. page_worker env (chunk ! i) (Suc (cs + i)) a = Inr (Suc (cs + i), map snd rs ! i)"
    using res(1,2) by simp
  ultimately show ?thesis
    using res(1) by (intro exI [of _ "map snd rs"]) simp
qed

text \<open>
  Sorting by page number gives the same list whatever the order of the results: the
  chunk's text would be the same had the results come in the order of completion.
\<close>

lemma filter_same_key:
  "distinct (map f zs) \<Longrightarrow> k \<in> set zs \<Longrightarrow> filter (\<lambda>x. f k = f x) zs = [k]"
proof (induction zs)
  case Nil
  then show ?case by simp
next
  case (Cons z zs)
  show ?case
  proof (cases "k = z")
    case True
    have "filter (\<lambda>x. f z = f x) zs = []"
      using Cons.prems(1) by (auto simp: filter_empty_conv)
    with True show ?thesis by simp
  next
    case False
    with Cons.prems have "k \<in> set zs" "f k \<noteq> f z" by (auto simp: image_iff)
    with Cons show ?thesis by simp
  qed
qed

lemma sort_key_any_order:
  assumes "mset ys = mset xs" and "distinct (map f xs)"
  shows "sort_key f ys = sort_key f xs"
proof (rule properties_for_sort_key)
  show "mset (sort_key f xs) = mset ys"
    using assms(1) by simp
  show "sorted (map f (sort_key f xs))"
    by simp
next
  fix k assume k: "k \<in> set (sort_key f xs)"
  have "mset (map f ys) = mset (map f xs)"
    using assms(1) by simp
  with assms(2) have dy: "distinct (map f ys)"
    by (metis mset_eq_imp_distinct_iff)
  have "mset (map f (sort_key f xs)) = mset (map f xs)"
    by simp
  with assms(2) have ds: "distinct (map f (sort_key f xs))"
    by (metis mset_eq_imp_distinct_iff)
  from k have "k \<in> set ys"
    using assms(1) by (metis mset_eq_setD set_sort)
  with dy have "filter (\<lambda>x. f k = f x) ys = [k]"
    by (rule filter_same_key)
  moreover from ds k have "filter (\<lambda>x. f k = f x) (sort_key f xs) = [k]"
    by (rule filter_same_key)
  ultimately show "filter (\<lambda>x. f k = f x) (sort_key f xs) = filter (\<lambda>x. f k = f x) ys"
    by simp
qed

lemma chunk_text_any_arrival_order:
  assumes "attempt_chunk env cs chunk a = Inr md"
    and "promise_all (chunkPromises env cs chunk a) = Inr rs"
    and "mset arrived = mset rs"
  shows "js_join separator (map snd (sort_key fst arrived)) = md"
proof -
  have "distinct (map fst rs)"
    unfolding chunk_results(3) [OF assms(2)] by (simp add: distinct_map inj_on_def)
  from sort_key_any_order [OF assms(3) this] assms(1,2) show ?thesis
    by (simp add: attempt_chunk_def)
qed

section \<open>The retry loop and the chunk loop\<close>

lemma page_worker_settle [simp]:
  "page_worker (env\<lparr>settle_time := st\<rparr>) = page_worker env"
  by (rule ext)+ (simp add: page_worker_def)

lemma promise_all_Inr_cong:
  assumes "map snd ps = map snd qs"
  shows "promise_all ps = Inr vs \<longleftrightarrow> promise_all qs = Inr vs"
proof -
  have "(\<forall>p\<in>set ps. \<not> isl (snd p)) \<longleftrightarrow> (\<forall>r\<in>set (map snd ps). \<not> isl r)" by simp
  moreover have "(\<forall>p\<in>set qs. \<not> isl (snd p)) \<longleftrightarrow> (\<forall>r\<in>set (map snd qs). \<not> isl r)" by simp
  moreover have "map (projr \<circ> snd) ps = map projr (map snd ps)"
    "map (projr \<circ> snd) qs = map projr (map snd qs)" by simp_all
  ultimately show ?thesis
    unfolding promise_all_Inr using assms by metis
qed

lemma attempt_chunk_settle:
  "attempt_chunk (env\<lparr>settle_time := st\<rparr>) cs chunk a = Inr md \<longleftrightarrow>
   attempt_chunk env cs chunk a = Inr md"
proof -
  have "map snd (chunkPromises (env\<lparr>settle_time := st\<rparr>) cs chunk a) =
        map snd (chunkPromises env cs chunk a)"
    by (simp add: chunkPromises_def split_def)
  from promise_all_Inr_cong [OF this]
  have c: "promise_all (chunkPromises (env\<lparr>settle_time := st\<rparr>) cs chunk a) = Inr vs \<longleftrightarrow>
           promise_all (chunkPromises env cs chunk a) = Inr vs" for vs .
  show ?thesis
  proof (cases "promise_all (chunkPromises env cs chunk a)")
    case (Inl e)
    then have "\<not> promise_all (chunkPromises (env\<lparr>settle_time := st\<rparr>) cs chunk a) = Inr vs" for vs
      using c [of vs] by simp
    then obtain e' where "promise_all (chunkPromises (env\<lparr>settle_time := st\<rparr>) cs chunk a) = Inl e'"
      by (cases "promise_all (chunkPromises (env\<lparr>settle_time := st\<rparr>) cs chunk a)") auto
    with Inl show ?thesis by (simp add: attempt_chunk_def)
  next
    case (Inr vs)
    then have "promise_all (chunkPromises (env\<lparr>settle_time := st\<rparr>) cs chunk a) = Inr vs"
      using c [of vs] by simp
    with Inr show ?thesis by (simp add: attempt_chunk_def)
  qed
qed

text \<open>The attempt loop succeeds with the result of its first successful attempt.\<close>

lemma attempt_loop_Inr:
  "fst (attempt_loop env cs chunk a le) = Inr md \<longleftrightarrow>
     (\<exists>k. a \<le> k \<and> k \<le> MAX_RETRIES + 1 \<and> attempt_chunk env cs chunk k = Inr md \<and>
          (\<forall>b. a \<le> b \<and> b < k \<longrightarrow> isl (attempt_chunk env cs chunk b)))"
proof (induction env cs chunk a le rule: attempt_loop.induct)
  case (1 env cs chunk a le)
  show ?case
  proof (cases "a \<le> MAX_RETRIES + 1")
    case False
    then show ?thesis
      by (subst attempt_loop.simps) auto
  next
    case le: True
    show ?thesis
    proof (cases "attempt_chunk env cs chunk a")
      case (Inr m)
      have "fst (attempt_loop env cs chunk a le) = Inr m"
        using le Inr by (subst attempt_loop.simps) simp
      moreover have "k = a" if "a \<le> k" "\<forall>b. a \<le> b \<and> b < k \<longrightarrow> isl (attempt_chunk env cs chunk b)" for k
      proof (rule ccontr)
        assume "k \<noteq> a"
        with that have "isl (attempt_chunk env cs chunk a)" by auto
        with Inr show False by simp
      qed
      ultimately show ?thesis
        using le Inr by (metis Inr_inject le_refl not_less_iff_gr_or_eq order.strict_iff_not)
    next
      case (Inl e)
      have "fst (attempt_loop env cs chunk a le) = fst (attempt_loop env cs chunk (a + 1) (Some e))"
        using le Inl by (subst attempt_loop.simps) (simp add: split_def Let_def)
      moreover note "1.IH" [OF le Inl]
      moreover have "(\<exists>k. a + 1 \<le> k \<and> k \<le> MAX_RETRIES + 1 \<and> attempt_chunk env cs chunk k = Inr md \<and>
          (\<forall>b. a + 1 \<le> b \<and> b < k \<longrightarrow> isl (attempt_chunk env cs chunk b))) \<longleftrightarrow>
        (\<exists>k. a \<le> k \<and> k \<le> MAX_RETRIES + 1 \<and> attempt_chunk env cs chunk k = Inr md \<and>
          (\<forall>b. a \<le> b \<and> b < k \<longrightarrow> isl (attempt_chunk env cs chunk b)))" (is "?L \<longleftrightarrow> ?R")
      proof
        assume ?L
        then obtain k where k: "a + 1 \<le> k" "k \<le> MAX_RETRIES + 1" "attempt_chunk env cs chunk k = Inr md"
          "\<forall>b. a + 1 \<le> b \<and> b < k \<longrightarrow> isl (attempt_chunk env cs chunk b)" by blast
        have "isl (attempt_chunk env cs chunk b)" if "a \<le> b" "b < k" for b
        proof (cases "b = a")
          case True with Inl show ?thesis by simp
        next
          case False with that k(4) show ?thesis by simp
        qed
        with k show ?R by (intro exI [of _ k]) auto
      next
        assume ?R
        then obtain k where k: "a \<le> k" "k \<le> MAX_RETRIES + 1" "attempt_chunk env cs chunk k = Inr md"
          "\<forall>b. a \<le> b \<and> b < k \<longrightarrow> isl (attempt_chunk env cs chunk b)" by blast
        from k(3) Inl have "k \<noteq> a" by auto
        with k show ?L by (intro exI [of _ k]) auto
      qed
      ultimately show ?thesis by simp
    qed
  qed
qed

lemma attempt_loop_settle:
  "fst (attempt_loop (env\<lparr>settle_time := st\<rparr>) cs chunk a le) = Inr md \<longleftrightarrow>
   fst (attempt_loop env cs chunk a le') = Inr md"
proof -
  have iso: "isl (attempt_chunk (env\<lparr>settle_time := st\<rparr>) cs chunk b) \<longleftrightarrow> isl (attempt_chunk env cs chunk b)" for b
  proof (cases "attempt_chunk env cs chunk b")
    case (Inl e)
    have "attempt_chunk (env\<lparr>settle_time := st\<rparr>) cs chunk b \<noteq> Inr m" for m
      using Inl by (simp add: attempt_chunk_settle)
    then show ?thesis
      using Inl by (cases "attempt_chunk (env\<lparr>settle_time := st\<rparr>) cs chunk b") (simp, blast)
  next
    case (Inr m)
    then have "attempt_chunk (env\<lparr>settle_time := st\<rparr>) cs chunk b = Inr m"
      by (simp add: attempt_chunk_settle)
    with Inr show ?thesis by simp
  qed
  have ok: "attempt_chunk (env\<lparr>settle_time := st\<rparr>) cs chunk b = Inr md \<longleftrightarrow>
      attempt_chunk env cs chunk b = Inr md" for b
    by (rule attempt_chunk_settle)
  have "fst (attempt_loop (env\<lparr>settle_time := st\<rparr>) cs chunk a le) = Inr md \<longleftrightarrow>
     (\<exists>k. a \<le> k \<and> k \<le> MAX_RETRIES + 1 \<and> attempt_chunk (env\<lparr>settle_time := st\<rparr>) cs chunk k = Inr md \<and>
          (\<forall>b. a \<le> b \<and> b < k \<longrightarrow> isl (attempt_chunk (env\<lparr>settle_time := st\<rparr>) cs chunk b)))"
    by (rule attempt_loop_Inr)
  also have "\<dots> \<longleftrightarrow>
     (\<exists>k. a \<le> k \<and> k \<le> MAX_RETRIES + 1 \<and> attempt_chunk env cs chunk k = Inr md \<and>
          (\<forall>b. a \<le> b \<and> b < k \<longrightarrow> isl (attempt_chunk env cs chunk b)))"
    by (simp only: ok iso)
  also have "\<dots> \<longleftrightarrow> fst (attempt_loop env cs chunk a le') = Inr md"
    by (rule attempt_loop_Inr [symmetric])
  finally show ?thesis .
qed

text \<open>One round of the chunk loop, by the outcome of the chunk.\<close>

lemma chunk_loop_done:
  "\<not> cs < length images \<Longrightarrow> chunk_loop env images cs full = (Inr full, [])"
  by (subst chunk_loop.simps) simp

lemma chunk_loop_fail:
  assumes "cs < length images"
    and "fst (attempt_loop env cs (slice cs (min (cs + CHUNK_SIZE) (length images)) images) 1 None) = Inl le"
  shows "fst (chunk_loop env images cs full) =
     Inl (Error (''Failed to process chunk '' @ show_nat (cs div CHUNK_SIZE + 1) @ '': '' @ opt_message le))"
proof (cases "attempt_loop env cs (slice cs (min (cs + CHUNK_SIZE) (length images)) images) 1 None")
  case (Pair r tr)
  with assms(2) have "r = Inl le" by simp
  with Pair assms(1) show ?thesis
    by (subst chunk_loop.simps) (simp add: Let_def)
qed

lemma chunk_loop_step:
  assumes "cs < length images"
    and "fst (attempt_loop env cs (slice cs (min (cs + CHUNK_SIZE) (length images)) images) 1 None) = Inr m"
  shows "fst (chunk_loop env images cs full) =
     fst (chunk_loop env images (cs + CHUNK_SIZE)
            (full @ m @ (if min (cs + CHUNK_SIZE) (length images) < length images then separator else [])))"
proof (cases "attempt_loop env cs (slice cs (min (cs + CHUNK_SIZE) (length images)) images) 1 None")
  case (Pair r tr)
  with assms(2) have "r = Inr m" by simp
  with Pair assms(1) show ?thesis
    by (subst chunk_loop.simps) (simp add: Let_def split_def)
qed

section \<open>Page order of the assembled text\<close>

lemma slice_chunk_length:
  "cs < length images \<Longrightarrow>
   length (slice cs (min (cs + CHUNK_SIZE) (length images)) images) = min CHUNK_SIZE (length images - cs)"
  by (auto simp: slice_def)

lemma slice_chunk_nth:
  "i < min CHUNK_SIZE (length images - cs) \<Longrightarrow>
   slice cs (min (cs + CHUNK_SIZE) (length images)) images ! i = images ! (cs + i)"
  by (auto simp: slice_def)

lemma chunk_loop_same_ok:
  assumes "\<And>cs' m. cs \<le> cs' \<Longrightarrow> CHUNK_SIZE dvd cs' \<Longrightarrow> cs' < length images \<Longrightarrow>
     fst (attempt_loop e1 cs' (slice cs' (min (cs' + CHUNK_SIZE) (length images)) images) 1 None) = Inr m \<longleftrightarrow>
     fst (attempt_loop e2 cs' (slice cs' (min (cs' + CHUNK_SIZE) (length images)) images) 1 None) = Inr m"
    and "CHUNK_SIZE dvd cs"
  shows "fst (chunk_loop e1 images cs full) = Inr md \<longleftrightarrow> fst (chunk_loop e2 images cs full) = Inr md"
  using assms
proof (induction "length images - cs" arbitrary: cs full rule: less_induct)
  case less
  let ?chunk = "slice cs (min (cs + CHUNK_SIZE) (length images)) images"
  show ?case
  proof (cases "cs < length images")
    case False
    then show ?thesis by (simp add: chunk_loop_done)
  next
    case True
    have eq: "fst (attempt_loop e1 cs ?chunk 1 None) = Inr m \<longleftrightarrow>
              fst (attempt_loop e2 cs ?chunk 1 None) = Inr m" for m
      using less.prems(1) [of cs m] less.prems(2) True by simp
    show ?thesis
    proof (cases "fst (attempt_loop e1 cs ?chunk 1 None)")
      case (Inl a)
      then have "fst (attempt_loop e2 cs ?chunk 1 None) \<noteq> Inr m" for m
        using eq [of m] by simp
      then obtain b where "fst (attempt_loop e2 cs ?chunk 1 None) = Inl b"
        by (cases "fst (attempt_loop e2 cs ?chunk 1 None)") (simp, blast)
      with Inl True show ?thesis
        by (simp add: chunk_loop_fail)
    next
      case (Inr m)
      then have 2: "fst (attempt_loop e2 cs ?chunk 1 None) = Inr m"
        using eq [of m] by simp
      have "length images - (cs + CHUNK_SIZE) < length images - cs"
        using True by (simp add: CHUNK_SIZE_def)
      moreover have "CHUNK_SIZE dvd cs + CHUNK_SIZE"
        using less.prems(2) by simp
      ultimately have "fst (chunk_loop e1 images (cs + CHUNK_SIZE) full') = Inr md \<longleftrightarrow>
          fst (chunk_loop e2 images (cs + CHUNK_SIZE) full') = Inr md" for full'
        using less.hyps [of "cs + CHUNK_SIZE" full'] less.prems(1) by simp
      then show ?thesis
        by (simp only: chunk_loop_step [OF True Inr] chunk_loop_step [OF True 2])
    qed
  qed
qed

lemma chunk_loop_settle:
  "fst (chunk_loop (env\<lparr>settle_time := st\<rparr>) images 0 full) = Inr md \<longleftrightarrow>
   fst (chunk_loop env images 0 full) = Inr md"
  by (rule chunk_loop_same_ok) (simp_all add: attempt_loop_settle [where le' = None])

text \<open>A successful run of the chunk loop appends the texts of the remaining pages.\<close>

lemma chunk_loop_Inr:
  "fst (chunk_loop env images cs full) = Inr md \<Longrightarrow>
   \<exists>ts. length ts = length images - cs \<and> md = full @ js_join separator ts \<and>
     (\<forall>i<length ts. \<exists>a. 1 \<le> a \<and> a \<le> MAX_RETRIES + 1 \<and>
        page_worker env (images ! (cs + i)) (Suc (cs + i)) a = Inr (Suc (cs + i), ts ! i))"
proof (induction "length images - cs" arbitrary: cs full rule: less_induct)
  case less
  let ?n = "length images"
  let ?chunk = "slice cs (min (cs + CHUNK_SIZE) ?n) images"
  show ?case
  proof (cases "cs < ?n")
    case False
    with less.prems show ?thesis
      by (simp add: chunk_loop_done)
  next
    case True
    show ?thesis
    proof (cases "fst (attempt_loop env cs ?chunk 1 None)")
      case (Inl a)
      with True less.prems show ?thesis
        by (simp add: chunk_loop_fail)
    next
      case (Inr m)
      then obtain k where k: "1 \<le> k" "k \<le> MAX_RETRIES + 1" "attempt_chunk env cs ?chunk k = Inr m"
        unfolding attempt_loop_Inr by blast
      from attempt_chunk_Inr [OF k(3)] obtain ts1 where ts1: "length ts1 = length ?chunk"
        "m = js_join separator ts1"
        "\<forall>i<length ?chunk. page_worker env (?chunk ! i) (Suc (cs + i)) k = Inr (Suc (cs + i), ts1 ! i)"
        by blast
      have len1: "length ts1 = min CHUNK_SIZE (?n - cs)"
        using ts1(1) True by (simp add: slice_chunk_length)
      have w1: "page_worker env (images ! (cs + i)) (Suc (cs + i)) k = Inr (Suc (cs + i), ts1 ! i)"
        if "i < length ts1" for i
        using that ts1(3) ts1(1) len1 slice_chunk_nth [of i images cs] by auto
      let ?full' = "full @ m @ (if min (cs + CHUNK_SIZE) ?n < ?n then separator else [])"
      have "fst (chunk_loop env images (cs + CHUNK_SIZE) ?full') = Inr md"
        using less.prems chunk_loop_step [OF True Inr] by simp
      moreover have "?n - (cs + CHUNK_SIZE) < ?n - cs"
        using True by (simp add: CHUNK_SIZE_def)
      ultimately obtain ts2 where ts2: "length ts2 = ?n - (cs + CHUNK_SIZE)"
        "md = ?full' @ js_join separator ts2"
        "\<forall>i<length ts2. \<exists>a. 1 \<le> a \<and> a \<le> MAX_RETRIES + 1 \<and>
           page_worker env (images ! (cs + CHUNK_SIZE + i)) (Suc (cs + CHUNK_SIZE + i)) a =
             Inr (Suc (cs + CHUNK_SIZE + i), ts2 ! i)"
        using less.hyps [of "cs + CHUNK_SIZE" ?full'] by blast
      have ne1: "ts1 \<noteq> []"
        using len1 True by (auto simp: CHUNK_SIZE_def)
      have md: "md = full @ js_join separator (ts1 @ ts2)"
      proof (cases "ts2 = []")
        case True
        then have "\<not> cs + CHUNK_SIZE < ?n" using ts2(1) by simp
        with True ts2(2) ts1(2) show ?thesis by simp
      next
        case False
        then have "cs + CHUNK_SIZE < ?n" using ts2(1) by (cases "cs + CHUNK_SIZE < ?n") auto
        with False ts2(2) ts1(2) ne1 show ?thesis
          by (simp add: js_join_append)
      qed
      have len: "length (ts1 @ ts2) = ?n - cs"
        using len1 ts2(1) True by auto
      have "\<exists>a. 1 \<le> a \<and> a \<le> MAX_RETRIES + 1 \<and>
          page_worker env (images ! (cs + i)) (Suc (cs + i)) a = Inr (Suc (cs + i), (ts1 @ ts2) ! i)"
        if "i < length (ts1 @ ts2)" for i
      proof (cases "i < length ts1")
        case True
        with w1 [OF True] k show ?thesis
          by (auto simp: nth_append)
      next
        case False
        then have i2: "i - length ts1 < length ts2" using that by auto
        then have "ts2 \<noteq> []" by auto
        then have "cs + CHUNK_SIZE < ?n" using ts2(1) by (cases "cs + CHUNK_SIZE < ?n") auto
        then have "length ts1 = CHUNK_SIZE" using len1 by auto
        with False have j: "cs + CHUNK_SIZE + (i - length ts1) = cs + i" by simp
        from ts2(3) i2 obtain a where "1 \<le> a" "a \<le> MAX_RETRIES + 1"
          "page_worker env (images ! (cs + CHUNK_SIZE + (i - length ts1)))
             (Suc (cs + CHUNK_SIZE + (i - length ts1))) a =
             Inr (Suc (cs + CHUNK_SIZE + (i - length ts1)), ts2 ! (i - length ts1))"
          by blast
        then show ?thesis
          unfolding j using False by (auto simp: nth_append)
      qed
      with md len show ?thesis by blast
    qed
  qed
qed

text \<open>
  Claim C1. When the OCR phase of a job completes, the assembled text is the texts of the
  pages joined in ascending order of their 1-based page numbers, each the text that the
  page's worker returned on one of the attempts of its chunk; and the assembled text is
  the same whatever the times at which the concurrent calls settle.
\<close>

theorem pages_in_order:
  assumes "fst (ocr_phase env images) = Inr md"
  shows "\<exists>texts. length texts = length images \<and> md = js_join separator texts \<and>
     (\<forall>i<length images. \<exists>attempt. 1 \<le> attempt \<and> attempt \<le> MAX_RETRIES + 1 \<and>
        page_worker env (images ! i) (i + 1) attempt = Inr (i + 1, texts ! i)) \<and>
     (\<forall>st. fst (ocr_phase (env\<lparr>settle_time := st\<rparr>) images) = Inr md)"
proof -
  from chunk_loop_Inr [of env images 0 "[]" md] assms
  obtain ts where ts: "length ts = length images" "md = js_join separator ts"
    "\<forall>i<length ts. \<exists>a. 1 \<le> a \<and> a \<le> MAX_RETRIES + 1 \<and>
        page_worker env (images ! i) (Suc i) a = Inr (Suc i, ts ! i)"
    by (auto simp: ocr_phase_def)
  moreover have "fst (ocr_phase (env\<lparr>settle_time := st\<rparr>) images) = Inr md" for st
    using assms by (simp add: ocr_phase_def chunk_loop_settle)
  ultimately show ?thesis
    by (intro exI [of _ ts]) simp
qed

lemma sample_run:
  "ocr_phase sample_ocr sample_images =
    (Inr (''page 1'' @ separator @ ''page 2'' @ separator @ ''page 3''),
     [ChunkBegin 1 1 2, Attempt 1, ChunkBegin 2 3 3, Attempt 1, Delay 1000, Attempt 2])"
  by code_simp

theorem pages_in_order_witness:
  "fst (ocr_phase sample_ocr sample_images) =
     Inr (''page 1'' @ separator @ ''page 2'' @ separator @ ''page 3'') \<and>
   (\<exists>texts. length texts = length sample_images \<and>
      ''page 1'' @ separator @ ''page 2'' @ separator @ ''page 3'' = js_join separator texts \<and>
      (\<forall>i<length sample_images. \<exists>attempt. 1 \<le> attempt \<and> attempt \<le> MAX_RETRIES + 1 \<and>
         page_worker sample_ocr (sample_images ! i) (i + 1) attempt = Inr (i + 1, texts ! i)) \<and>
      (\<forall>st. fst (ocr_phase (sample_ocr\<lparr>settle_time := st\<rparr>) sample_images) =
         Inr (''page 1'' @ separator @ ''page 2'' @ separator @ ''page 3'')))"
proof -
  have run: "fst (ocr_phase sample_ocr sample_images) =
      Inr (''page 1'' @ separator @ ''page 2'' @ separator @ ''page 3'')"
    by (simp add: sample_run)
  from pages_in_order [OF run] run show ?thesis
    by blast
qed

section \<open>Attempts and delays\<close>

text \<open>The attempts made on one chunk and the delays between them.\<close>

lemma attempt_loop_trace:
  "a \<le> MAX_RETRIES + 1 \<Longrightarrow>
   \<exists>k. a \<le> k \<and> k \<le> MAX_RETRIES + 1 \<and>
     snd (attempt_loop env cs chunk a le) =
       concat (map (\<lambda>b. [Attempt b, Delay (1000 * b)]) [a..<k]) @ [Attempt k]"
proof (induction env cs chunk a le rule: attempt_loop.induct)
  case (1 env cs chunk a le)
  show ?case
  proof (cases "attempt_chunk env cs chunk a")
    case (Inr m)
    then have "snd (attempt_loop env cs chunk a le) = [Attempt a]"
      using "1.prems" by (subst attempt_loop.simps) simp
    with "1.prems" show ?thesis
      by (intro exI [of _ a]) simp
  next
    case (Inl e)
    show ?thesis
    proof (cases "a \<le> MAX_RETRIES")
      case True
      then have "snd (attempt_loop env cs chunk a le) =
          Attempt a # Delay (1000 * a) # snd (attempt_loop env cs chunk (a + 1) (Some e))"
        using Inl by (subst attempt_loop.simps) (simp add: split_def Let_def)
      moreover from "1.IH" [OF "1.prems" Inl] True
      obtain k where "a + 1 \<le> k" "k \<le> MAX_RETRIES + 1"
        "snd (attempt_loop env cs chunk (a + 1) (Some e)) =
           concat (map (\<lambda>b. [Attempt b, Delay (1000 * b)]) [a + 1..<k]) @ [Attempt k]"
        by auto
      ultimately show ?thesis
        by (intro exI [of _ k]) (simp add: upt_rec [of a k])
    next
      case False
      with "1.prems" have a: "a = MAX_RETRIES + 1" by simp
      have "snd (attempt_loop env cs chunk (a + 1) (Some e)) = []"
        unfolding a by (subst attempt_loop.simps) simp
      then have "snd (attempt_loop env cs chunk a le) = [Attempt a]"
        using Inl False "1.prems" by (subst attempt_loop.simps) (simp add: split_def Let_def)
      with "1.prems" show ?thesis
        by (intro exI [of _ a]) simp
    qed
  qed
qed

lemma chunk_loop_trace_done:
  "\<not> cs < length images \<Longrightarrow> snd (chunk_loop env images cs full) = []"
  by (simp add: chunk_loop_done)

lemma chunk_loop_trace_fail:
  assumes "cs < length images"
    and "fst (attempt_loop env cs (slice cs (min (cs + CHUNK_SIZE) (length images)) images) 1 None) = Inl le"
  shows "snd (chunk_loop env images cs full) =
     ChunkBegin (cs div CHUNK_SIZE + 1) (cs + 1) (min (cs + CHUNK_SIZE) (length images)) #
     snd (attempt_loop env cs (slice cs (min (cs + CHUNK_SIZE) (length images)) images) 1 None)"
proof (cases "attempt_loop env cs (slice cs (min (cs + CHUNK_SIZE) (length images)) images) 1 None")
  case (Pair r tr)
  with assms(2) have "r = Inl le" by simp
  with Pair assms(1) show ?thesis
    by (subst chunk_loop.simps) (simp add: Let_def)
qed

lemma chunk_loop_trace_step:
  assumes "cs < length images"
    and "fst (attempt_loop env cs (slice cs (min (cs + CHUNK_SIZE) (length images)) images) 1 None) = Inr m"
  shows "snd (chunk_loop env images cs full) =
     ChunkBegin (cs div CHUNK_SIZE + 1) (cs + 1) (min (cs + CHUNK_SIZE) (length images)) #
     snd (attempt_loop env cs (slice cs (min (cs + CHUNK_SIZE) (length images)) images) 1 None) @
     snd (chunk_loop env images (cs + CHUNK_SIZE)
            (full @ m @ (if min (cs + CHUNK_SIZE) (length images) < length images then separator else [])))"
proof (cases "attempt_loop env cs (slice cs (min (cs + CHUNK_SIZE) (length images)) images) 1 None")
  case (Pair r tr)
  with assms(2) have "r = Inr m" by simp
  with Pair assms(1) show ?thesis
    by (subst chunk_loop.simps) (simp add: Let_def split_def)
qed

lemma chunk_loop_trace:
  "\<exists>ks. list_all (\<lambda>k. 1 \<le> k \<and> k \<le> MAX_RETRIES + 1) ks \<and>
     snd (chunk_loop env images (c * CHUNK_SIZE) full) =
       concat (map (\<lambda>(i, k).
           ChunkBegin (i + 1) (i * CHUNK_SIZE + 1) (min (i * CHUNK_SIZE + CHUNK_SIZE) (length images)) #
           concat (map (\<lambda>a. [Attempt a, Delay (1000 * a)]) [1..<k]) @ [Attempt k])
         (enumerate c ks))"
proof (induction "length images - c * CHUNK_SIZE" arbitrary: c full rule: less_induct)
  case less
  let ?cs = "c * CHUNK_SIZE"
  let ?chunk = "slice ?cs (min (?cs + CHUNK_SIZE) (length images)) images"
  let ?row = "\<lambda>(i, k).
           ChunkBegin (i + 1) (i * CHUNK_SIZE + 1) (min (i * CHUNK_SIZE + CHUNK_SIZE) (length images)) #
           concat (map (\<lambda>a. [Attempt a, Delay (1000 * a)]) [1..<k]) @ [Attempt k]"
  show ?case
  proof (cases "?cs < length images")
    case False
    then show ?thesis
      by (intro exI [of _ "[]"]) (simp add: chunk_loop_trace_done)
  next
    case True
    from attempt_loop_trace [of 1 env ?cs ?chunk None]
    obtain k where k: "1 \<le> k" "k \<le> MAX_RETRIES + 1"
      "snd (attempt_loop env ?cs ?chunk 1 None) =
         concat (map (\<lambda>b. [Attempt b, Delay (1000 * b)]) [1..<k]) @ [Attempt k]"
      by auto
    have num: "?cs div CHUNK_SIZE + 1 = c + 1"
      by (simp add: CHUNK_SIZE_def)
    show ?thesis
    proof (cases "fst (attempt_loop env ?cs ?chunk 1 None)")
      case (Inl le)
      show ?thesis
        using k num by (intro exI [of _ "[k]"]) (simp add: chunk_loop_trace_fail [OF True Inl])
    next
      case (Inr m)
      let ?full' = "full @ m @ (if min (?cs + CHUNK_SIZE) (length images) < length images then separator else [])"
      have "length images - Suc c * CHUNK_SIZE < length images - ?cs"
        using True by (simp add: CHUNK_SIZE_def)
      from less [OF this, of ?full']
      obtain ks where ks: "list_all (\<lambda>k. 1 \<le> k \<and> k \<le> MAX_RETRIES + 1) ks"
        "snd (chunk_loop env images (Suc c * CHUNK_SIZE) ?full') = concat (map ?row (enumerate (Suc c) ks))"
        by blast
      have "?cs + CHUNK_SIZE = Suc c * CHUNK_SIZE" by simp
      with chunk_loop_trace_step [OF True Inr, of full] ks(2) k(3) num
      have "snd (chunk_loop env images ?cs full) = concat (map ?row (enumerate c (k # ks)))"
        by simp
      with k ks(1) show ?thesis
        by (intro exI [of _ "k # ks"]) simp
    qed
  qed
qed

text \<open>
  Claim C3. The scheduler begins the chunks one after the other, each once; on each chunk
  it makes attempts 1 to \<open>k\<close> for some \<open>k\<close> of at most \<open>MAX_RETRIES + 1\<close> (three), and
  between attempt \<open>a\<close> and the retry that follows it waits \<open>1000 * a\<close> milliseconds.
\<close>

theorem bounded_attempts_linear_delay:
  "\<exists>ks. list_all (\<lambda>k. 1 \<le> k \<and> k \<le> MAX_RETRIES + 1) ks \<and> MAX_RETRIES = 2 \<and>
     snd (ocr_phase env images) =
       concat (map (\<lambda>(i, k).
           ChunkBegin (i + 1) (i * CHUNK_SIZE + 1) (min (i * CHUNK_SIZE + CHUNK_SIZE) (length images)) #
           concat (map (\<lambda>a. [Attempt a, Delay (1000 * a)]) [1..<k]) @ [Attempt k])
         (enumerate 0 ks))"
  using chunk_loop_trace [of env images 0 "[]"] by (simp add: ocr_phase_def MAX_RETRIES_def)

theorem bounded_attempts_linear_delay_witness:
  "\<exists>ks. list_all (\<lambda>k. 1 \<le> k \<and> k \<le> MAX_RETRIES + 1) ks \<and> MAX_RETRIES = 2 \<and>
     [ChunkBegin 1 1 2, Attempt 1, ChunkBegin 2 3 3, Attempt 1, Delay 1000, Attempt 2] =
       concat (map (\<lambda>(i, k).
           ChunkBegin (i + 1) (i * CHUNK_SIZE + 1)
             (min (i * CHUNK_SIZE + CHUNK_SIZE) (length sample_images)) #
           concat (map (\<lambda>a. [Attempt a, Delay (1000 * a)]) [1..<k]) @ [Attempt k])
         (enumerate 0 ks))"
  using bounded_attempts_linear_delay [of sample_ocr sample_images] by (simp add: sample_run)

section \<open>A chunk that runs out of attempts\<close>

text \<open>A chunk whose attempts all fail leaves the loop with the error of the last one.\<close>

lemma attempt_loop_Inl:
  "a \<le> MAX_RETRIES + 1 \<Longrightarrow>
   \<forall>b. a \<le> b \<and> b \<le> MAX_RETRIES + 1 \<longrightarrow> isl (attempt_chunk env cs chunk b) \<Longrightarrow>
   attempt_chunk env cs chunk (MAX_RETRIES + 1) = Inl e \<Longrightarrow>
   fst (attempt_loop env cs chunk a le) = Inl (Some e)"
proof (induction env cs chunk a le rule: attempt_loop.induct)
  case (1 env cs chunk a le)
  from "1.prems"(1,2) obtain e' where e': "attempt_chunk env cs chunk a = Inl e'"
    by (cases "attempt_chunk env cs chunk a") auto
  then have unfold: "fst (attempt_loop env cs chunk a le) = fst (attempt_loop env cs chunk (a + 1) (Some e'))"
    using "1.prems"(1) by (subst attempt_loop.simps) (simp add: split_def Let_def)
  show ?case
  proof (cases "a = MAX_RETRIES + 1")
    case True
    with e' "1.prems"(3) have "e' = e" by simp
    moreover have "fst (attempt_loop env cs chunk (a + 1) (Some e')) = Inl (Some e')"
      unfolding True by (subst attempt_loop.simps) simp
    ultimately show ?thesis using unfold by simp
  next
    case False
    with "1.prems"(1) have "a + 1 \<le> MAX_RETRIES + 1" by simp
    moreover have "\<forall>b. a + 1 \<le> b \<and> b \<le> MAX_RETRIES + 1 \<longrightarrow> isl (attempt_chunk env cs chunk b)"
      using "1.prems"(2) by simp
    ultimately have "fst (attempt_loop env cs chunk (a + 1) (Some e')) = Inl (Some e)"
      using "1.IH" [OF "1.prems"(1) e'] "1.prems"(3) by blast
    with unfold show ?thesis by simp
  qed
qed

text \<open>A chunk with a successful attempt among the configured ones leaves the loop with a text.\<close>

lemma attempt_loop_succeeds:
  assumes "1 \<le> a" "a \<le> MAX_RETRIES + 1" "\<not> isl (attempt_chunk env cs chunk a)"
  shows "\<exists>m. fst (attempt_loop env cs chunk 1 None) = Inr m"
proof -
  define k where "k = (LEAST b. 1 \<le> b \<and> \<not> isl (attempt_chunk env cs chunk b))"
  have k: "1 \<le> k \<and> \<not> isl (attempt_chunk env cs chunk k)"
    unfolding k_def using assms(1,3) by (rule LeastI [of "\<lambda>b. 1 \<le> b \<and> \<not> isl (attempt_chunk env cs chunk b)" a, OF conjI])
  have "k \<le> a"
    unfolding k_def using assms(1,3) by (intro Least_le) simp
  have least: "isl (attempt_chunk env cs chunk b)" if "1 \<le> b" "b < k" for b
    using not_less_Least [of b "\<lambda>b. 1 \<le> b \<and> \<not> isl (attempt_chunk env cs chunk b)"] that
    unfolding k_def by blast
  from k obtain m where "attempt_chunk env cs chunk k = Inr m"
    by (cases "attempt_chunk env cs chunk k") auto
  with k \<open>k \<le> a\<close> assms(2) least have "fst (attempt_loop env cs chunk 1 None) = Inr m"
    unfolding attempt_loop_Inr by (intro exI [of _ k]) auto
  then show ?thesis ..
qed

text \<open>While the chunks succeed, the loop goes on to the next one.\<close>

lemma chunk_loop_reaches:
  assumes "\<forall>c'<c. \<exists>a. 1 \<le> a \<and> a \<le> MAX_RETRIES + 1 \<and>
      \<not> isl (attempt_chunk env (c' * CHUNK_SIZE)
        (slice (c' * CHUNK_SIZE) (min (c' * CHUNK_SIZE + CHUNK_SIZE) (length images)) images) a)"
    and "c * CHUNK_SIZE < length images"
  shows "\<exists>full. fst (chunk_loop env images 0 []) = fst (chunk_loop env images (c * CHUNK_SIZE) full)"
  using assms
proof (induction c)
  case 0
  then show ?case by (intro exI [of _ "[]"]) simp
next
  case (Suc c)
  let ?cs = "c * CHUNK_SIZE"
  from Suc.prems(2) have lt: "?cs < length images" by simp
  from Suc.prems(1) have "\<forall>c'<c. \<exists>a. 1 \<le> a \<and> a \<le> MAX_RETRIES + 1 \<and>
      \<not> isl (attempt_chunk env (c' * CHUNK_SIZE)
        (slice (c' * CHUNK_SIZE) (min (c' * CHUNK_SIZE + CHUNK_SIZE) (length images)) images) a)"
    by simp
  from Suc.IH [OF this lt] obtain full where
    full: "fst (chunk_loop env images 0 []) = fst (chunk_loop env images ?cs full)" ..
  from Suc.prems(1) obtain a where "1 \<le> a" "a \<le> MAX_RETRIES + 1"
    "\<not> isl (attempt_chunk env ?cs (slice ?cs (min (?cs + CHUNK_SIZE) (length images)) images) a)"
    by blast
  from attempt_loop_succeeds [OF this] obtain m where
    "fst (attempt_loop env ?cs (slice ?cs (min (?cs + CHUNK_SIZE) (length images)) images) 1 None) = Inr m" ..
  from chunk_loop_step [OF lt this, of full] full show ?case
    by (auto simp: add.commute)
qed

lemma ocr_phase_chunk_fails:
  assumes "c * CHUNK_SIZE < length images"
    and "chunk = slice (c * CHUNK_SIZE) (min (c * CHUNK_SIZE + CHUNK_SIZE) (length images)) images"
    and "\<forall>c'<c. \<exists>a. 1 \<le> a \<and> a \<le> MAX_RETRIES + 1 \<and>
      \<not> isl (attempt_chunk env (c' * CHUNK_SIZE)
        (slice (c' * CHUNK_SIZE) (min (c' * CHUNK_SIZE + CHUNK_SIZE) (length images)) images) a)"
    and "\<forall>a. 1 \<le> a \<and> a \<le> MAX_RETRIES + 1 \<longrightarrow> isl (attempt_chunk env (c * CHUNK_SIZE) chunk a)"
    and "attempt_chunk env (c * CHUNK_SIZE) chunk (MAX_RETRIES + 1) = Inl e"
  shows "fst (ocr_phase env images) =
     Inl (Error (''Failed to process chunk '' @ show_nat (c + 1) @ '': '' @ message e))"
proof -
  from chunk_loop_reaches [OF assms(3,1)] obtain full where
    "fst (chunk_loop env images 0 []) = fst (chunk_loop env images (c * CHUNK_SIZE) full)" ..
  moreover have "fst (attempt_loop env (c * CHUNK_SIZE) chunk 1 None) = Inl (Some e)"
    using assms(4,5) by (intro attempt_loop_Inl) simp_all
  then have "fst (chunk_loop env images (c * CHUNK_SIZE) full) =
     Inl (Error (''Failed to process chunk '' @ show_nat (c * CHUNK_SIZE div CHUNK_SIZE + 1) @ '': '' @
       opt_message (Some e)))"
    unfolding assms(2) by (rule chunk_loop_fail [OF assms(1)])
  ultimately show ?thesis
    by (simp add: ocr_phase_def CHUNK_SIZE_def)
qed

lemma reached_chunk_exhausted:
  assumes "file_present j" and "apiKey j = Some key" and "js_trim key \<noteq> []"
    and "loaded_pageCount j = Inr pageCount"
    and "rasterize (converters j) pageCount = Inr images"
    and "c * CHUNK_SIZE < length images"
    and "chunk = slice (c * CHUNK_SIZE) (min (c * CHUNK_SIZE + CHUNK_SIZE) (length images)) images"
    and "\<forall>c'<c. \<exists>a. 1 \<le> a \<and> a \<le> MAX_RETRIES + 1 \<and>
      \<not> isl (attempt_chunk (ocr j) (c' * CHUNK_SIZE)
        (slice (c' * CHUNK_SIZE) (min (c' * CHUNK_SIZE + CHUNK_SIZE) (length images)) images) a)"
    and "\<forall>a. 1 \<le> a \<and> a \<le> MAX_RETRIES + 1 \<longrightarrow> isl (attempt_chunk (ocr j) (c * CHUNK_SIZE) chunk a)"
    and "attempt_chunk (ocr j) (c * CHUNK_SIZE) chunk (MAX_RETRIES + 1) = Inl e"
  shows "POST_convert j =
     JsonResponse 500
       (error_body (''Failed to process chunk '' @ show_nat (c + 1) @ '': '' @ message e))"
proof -
  have key: "key \<noteq> []"
    using assms(3) by (auto simp: js_trim_def)
  have "fst (ocr_phase (ocr j) images) =
     Inl (Error (''Failed to process chunk '' @ show_nat (c + 1) @ '': '' @ message e))"
    by (rule ocr_phase_chunk_fails [OF assms(6-10)])
  with assms(1-5) key show ?thesis
    by (simp add: POST_convert_def caught_def)
qed

text \<open>
  Claim C4. When some chunk of a job fails on each of the \<open>MAX_RETRIES + 1\<close> attempts,
  the response is the error response of status 500 whose message ends with the message
  of the error of the last attempt on the first such chunk (the chunk at which the
  scheduler gives up); it is not the response that carries a document.
\<close>

theorem exhausted_chunk_fails_job:
  assumes "file_present j" and "apiKey j = Some key" and "js_trim key \<noteq> []"
    and "loaded_pageCount j = Inr pageCount"
    and "rasterize (converters j) pageCount = Inr images"
    and "c * CHUNK_SIZE < length images"
    and "\<forall>a. 1 \<le> a \<and> a \<le> MAX_RETRIES + 1 \<longrightarrow>
      isl (attempt_chunk (ocr j) (c * CHUNK_SIZE)
        (slice (c * CHUNK_SIZE) (min (c * CHUNK_SIZE + CHUNK_SIZE) (length images)) images) a)"
  shows "\<exists>c0 e. c0 \<le> c \<and>
     attempt_chunk (ocr j) (c0 * CHUNK_SIZE)
       (slice (c0 * CHUNK_SIZE) (min (c0 * CHUNK_SIZE + CHUNK_SIZE) (length images)) images)
       (MAX_RETRIES + 1) = Inl e \<and>
     POST_convert j =
       JsonResponse 500
         (error_body (''Failed to process chunk '' @ show_nat (c0 + 1) @ '': '' @ message e)) \<and>
     (\<forall>pdfBuffer. POST_convert j \<noteq> PdfResponse pdfBuffer)"
proof -
  let ?chunk = "\<lambda>c. slice (c * CHUNK_SIZE) (min (c * CHUNK_SIZE + CHUNK_SIZE) (length images)) images"
  let ?fails = "\<lambda>c. \<forall>a. 1 \<le> a \<and> a \<le> MAX_RETRIES + 1 \<longrightarrow>
      isl (attempt_chunk (ocr j) (c * CHUNK_SIZE) (?chunk c) a)"
  define c0 where "c0 = (LEAST c. ?fails c)"
  have fails: "?fails c0"
    unfolding c0_def using assms(7) by (rule LeastI)
  have le: "c0 \<le> c"
    unfolding c0_def using assms(7) by (rule Least_le)
  with assms(6) have lt: "c0 * CHUNK_SIZE < length images"
    by (meson le_less_trans mult_le_mono1)
  have before: "\<forall>c'<c0. \<exists>a. 1 \<le> a \<and> a \<le> MAX_RETRIES + 1 \<and>
      \<not> isl (attempt_chunk (ocr j) (c' * CHUNK_SIZE) (?chunk c') a)"
  proof (intro allI impI)
    fix c' assume "c' < c0"
    then have "\<not> ?fails c'"
      unfolding c0_def by (rule not_less_Least)
    then show "\<exists>a. 1 \<le> a \<and> a \<le> MAX_RETRIES + 1 \<and>
      \<not> isl (attempt_chunk (ocr j) (c' * CHUNK_SIZE) (?chunk c') a)"
      by blast
  qed
  from fails obtain e where e: "attempt_chunk (ocr j) (c0 * CHUNK_SIZE) (?chunk c0) (MAX_RETRIES + 1) = Inl e"
    by (cases "attempt_chunk (ocr j) (c0 * CHUNK_SIZE) (?chunk c0) (MAX_RETRIES + 1)") auto
  have "POST_convert j =
     JsonResponse 500
       (error_body (''Failed to process chunk '' @ show_nat (c0 + 1) @ '': '' @ message e))"
    by (rule reached_chunk_exhausted [OF assms(1-5) lt refl before fails e])
  with le e show ?thesis by auto
qed

lemma sample_rasterize: "rasterize sample_converters 3 = Inr sample_images"
proof -
  have "[1..<3 + 1] = [1, 2, 3::nat]" by code_simp
  then show ?thesis
    by (simp add: rasterize_def method5_puppeteer_def method_command_def method1_pdf2pic_def
        sample_converters_def sample_images_def)
qed

theorem exhausted_chunk_fails_job_witness:
  "\<exists>c0 e. c0 \<le> 1 \<and>
     attempt_chunk failing_ocr (c0 * CHUNK_SIZE)
       (slice (c0 * CHUNK_SIZE) (min (c0 * CHUNK_SIZE + CHUNK_SIZE) (length sample_images))
          sample_images)
       (MAX_RETRIES + 1) = Inl e \<and>
     POST_convert (sample_job\<lparr>ocr := failing_ocr\<rparr>) =
       JsonResponse 500
         (error_body (''Failed to process chunk '' @ show_nat (c0 + 1) @ '': '' @ message e)) \<and>
     (\<forall>pdfBuffer. POST_convert (sample_job\<lparr>ocr := failing_ocr\<rparr>) \<noteq> PdfResponse pdfBuffer)"
proof -
  let ?j = "sample_job\<lparr>ocr := failing_ocr\<rparr>"
  have 1: "file_present ?j" "apiKey ?j = Some ''key''" "js_trim ''key'' \<noteq> []"
    "loaded_pageCount ?j = Inr 3"
    by (simp_all add: sample_job_def js_trim_def is_white_space_def)
  have 2: "rasterize (converters ?j) 3 = Inr sample_images"
    by (simp add: sample_job_def sample_rasterize)
  have 3: "1 * CHUNK_SIZE < length sample_images"
    by (simp add: CHUNK_SIZE_def sample_images_def)
  have 4: "slice (1 * CHUNK_SIZE) (min (1 * CHUNK_SIZE + CHUNK_SIZE) (length sample_images)) sample_images = [30]"
    by (simp add: CHUNK_SIZE_def sample_images_def slice_def)
  have f: "attempt_chunk failing_ocr 2 [30] a =
      Inl (Error (''quota exceeded, attempt '' @ show_nat a))" for a
    by (simp add: attempt_chunk_def chunkPromises_def promise_all_def page_worker_def failing_ocr_def)
  have 5: "\<forall>a. 1 \<le> a \<and> a \<le> MAX_RETRIES + 1 \<longrightarrow>
      isl (attempt_chunk (ocr ?j) (1 * CHUNK_SIZE)
        (slice (1 * CHUNK_SIZE) (min (1 * CHUNK_SIZE + CHUNK_SIZE) (length sample_images)) sample_images) a)"
    unfolding 4 by (simp add: sample_job_def CHUNK_SIZE_def f)
  from exhausted_chunk_fails_job [OF 1 2 3 5] show ?thesis
    by (simp add: sample_job_def)
qed

text \<open>On the sample, the chunk that gives up is the second one, after its third attempt.\<close>

lemma failing_sample_response:
  "POST_convert (sample_job\<lparr>ocr := failing_ocr\<rparr>) =
     JsonResponse 500 (error_body ''Failed to process chunk 2: quota exceeded, attempt 3'')"
proof -
  let ?j = "sample_job\<lparr>ocr := failing_ocr\<rparr>"
  have 1: "file_present ?j" "apiKey ?j = Some ''key''" "js_trim ''key'' \<noteq> []"
    "loaded_pageCount ?j = Inr 3"
    by (simp_all add: sample_job_def js_trim_def is_white_space_def)
  have 2: "rasterize (converters ?j) 3 = Inr sample_images"
    by (simp add: sample_job_def sample_rasterize)
  have 3: "1 * CHUNK_SIZE < length sample_images"
    by (simp add: CHUNK_SIZE_def sample_images_def)
  have 4: "[30] = slice (1 * CHUNK_SIZE) (min (1 * CHUNK_SIZE + CHUNK_SIZE) (length sample_images)) sample_images"
    by (simp add: CHUNK_SIZE_def sample_images_def slice_def)
  have "\<not> isl (attempt_chunk failing_ocr 0 [10, 20] 1)"
    by code_simp
  then have 5: "\<forall>c'<1. \<exists>a. 1 \<le> a \<and> a \<le> MAX_RETRIES + 1 \<and>
      \<not> isl (attempt_chunk (ocr ?j) (c' * CHUNK_SIZE)
        (slice (c' * CHUNK_SIZE) (min (c' * CHUNK_SIZE + CHUNK_SIZE) (length sample_images)) sample_images) a)"
    by (auto simp: sample_job_def CHUNK_SIZE_def sample_images_def slice_def intro!: exI [of _ 1])
  have f: "attempt_chunk failing_ocr 2 [30] a =
      Inl (Error (''quota exceeded, attempt '' @ show_nat a))" for a
    by (simp add: attempt_chunk_def chunkPromises_def promise_all_def page_worker_def failing_ocr_def)
  have 6: "\<forall>a. 1 \<le> a \<and> a \<le> MAX_RETRIES + 1 \<longrightarrow> isl (attempt_chunk (ocr ?j) (1 * CHUNK_SIZE) [30] a)"
    by (simp add: sample_job_def CHUNK_SIZE_def f)
  have "show_nat 3 = ''3''" by code_simp
  then have 7: "attempt_chunk (ocr ?j) (1 * CHUNK_SIZE) [30] (MAX_RETRIES + 1) =
      Inl (Error ''quota exceeded, attempt 3'')"
    by (simp add: sample_job_def CHUNK_SIZE_def MAX_RETRIES_def f)
  have "show_nat (1 + 1) = ''2''" by code_simp
  with reached_chunk_exhausted [OF 1 2 3 4 5 6 7] show ?thesis
    by simp
qed

section \<open>Retries leave the result unchanged\<close>

lemma isl_if_same_Inr:
  assumes "\<And>m. x = Inr m \<longleftrightarrow> y = Inr m"
  shows "isl x \<longleftrightarrow> isl y"
proof (cases y)
  case (Inl b)
  have "x \<noteq> Inr m" for m using assms [of m] Inl by simp
  then have "isl x" by (cases x) (simp, blast)
  with Inl show ?thesis by simp
next
  case (Inr m)
  with assms [of m] show ?thesis by simp
qed

text \<open>Whether an attempt succeeds, and with what text, depends only on what the workers return.\<close>

lemma attempt_chunk_same_workers:
  assumes "\<And>i. i < length chunk \<Longrightarrow>
     page_worker e1 (chunk ! i) (Suc (cs + i)) a1 = page_worker e2 (chunk ! i) (Suc (cs + i)) a2"
  shows "attempt_chunk e1 cs chunk a1 = Inr md \<longleftrightarrow> attempt_chunk e2 cs chunk a2 = Inr md"
proof -
  have "map snd (chunkPromises e1 cs chunk a1) = map snd (chunkPromises e2 cs chunk a2)"
    by (rule nth_equalityI) (simp_all add: chunkPromises_length chunkPromises_nth assms)
  from promise_all_Inr_cong [OF this]
  have c: "promise_all (chunkPromises e1 cs chunk a1) = Inr vs \<longleftrightarrow>
           promise_all (chunkPromises e2 cs chunk a2) = Inr vs" for vs .
  show ?thesis
  proof (cases "promise_all (chunkPromises e2 cs chunk a2)")
    case (Inl e)
    then have "promise_all (chunkPromises e1 cs chunk a1) \<noteq> Inr vs" for vs
      using c [of vs] by simp
    then obtain e' where "promise_all (chunkPromises e1 cs chunk a1) = Inl e'"
      by (cases "promise_all (chunkPromises e1 cs chunk a1)") (simp, blast)
    with Inl show ?thesis by (simp add: attempt_chunk_def)
  next
    case (Inr vs)
    then have "promise_all (chunkPromises e1 cs chunk a1) = Inr vs"
      using c [of vs] by simp
    with Inr show ?thesis by (simp add: attempt_chunk_def)
  qed
qed

lemma page_worker_same_response:
  "generateContent e1 img p a1 = generateContent e2 img p a2 \<Longrightarrow>
   page_worker e1 img p a1 = page_worker e2 img p a2"
  by (simp add: page_worker_def)

lemma attempt_loop_same_attempts:
  assumes "\<And>a m. attempt_chunk e1 cs chunk a = Inr m \<longleftrightarrow> attempt_chunk e2 cs chunk a = Inr m"
  shows "fst (attempt_loop e1 cs chunk a le) = Inr md \<longleftrightarrow> fst (attempt_loop e2 cs chunk a le') = Inr md"
proof -
  have iso: "isl (attempt_chunk e1 cs chunk b) \<longleftrightarrow> isl (attempt_chunk e2 cs chunk b)" for b
    by (rule isl_if_same_Inr) (rule assms)
  have "fst (attempt_loop e1 cs chunk a le) = Inr md \<longleftrightarrow>
     (\<exists>k. a \<le> k \<and> k \<le> MAX_RETRIES + 1 \<and> attempt_chunk e1 cs chunk k = Inr md \<and>
          (\<forall>b. a \<le> b \<and> b < k \<longrightarrow> isl (attempt_chunk e1 cs chunk b)))"
    by (rule attempt_loop_Inr)
  also have "\<dots> \<longleftrightarrow>
     (\<exists>k. a \<le> k \<and> k \<le> MAX_RETRIES + 1 \<and> attempt_chunk e2 cs chunk k = Inr md \<and>
          (\<forall>b. a \<le> b \<and> b < k \<longrightarrow> isl (attempt_chunk e2 cs chunk b)))"
    by (simp only: assms iso)
  also have "\<dots> \<longleftrightarrow> fst (attempt_loop e2 cs chunk a le') = Inr md"
    by (rule attempt_loop_Inr [symmetric])
  finally show ?thesis .
qed

text \<open>The loop on a chunk that fails on attempts 1 to \<open>N\<close> and succeeds on the next.\<close>

lemma attempt_loop_after_failures:
  assumes "N \<le> MAX_RETRIES"
    and "\<forall>a. 1 \<le> a \<and> a \<le> N \<longrightarrow> isl (attempt_chunk env cs chunk a)"
    and "attempt_chunk env cs chunk (N + 1) = Inr m"
  shows "fst (attempt_loop env cs chunk 1 None) = Inr md \<longleftrightarrow> md = m"
proof
  assume "fst (attempt_loop env cs chunk 1 None) = Inr md"
  then obtain k where k: "1 \<le> k" "attempt_chunk env cs chunk k = Inr md"
    "\<forall>b. 1 \<le> b \<and> b < k \<longrightarrow> isl (attempt_chunk env cs chunk b)"
    unfolding attempt_loop_Inr by blast
  have "\<not> k \<le> N"
    using assms(2) k(1,2) by auto
  moreover have "\<not> N + 1 < k"
    using k(3) assms(3) by auto
  ultimately have "k = N + 1" by simp
  with k(2) assms(3) show "md = m" by simp
next
  assume "md = m"
  with assms show "fst (attempt_loop env cs chunk 1 None) = Inr md"
    unfolding attempt_loop_Inr by (intro exI [of _ "N + 1"]) auto
qed

lemma job_returns_pdf:
  assumes "loaded_pageCount j = Inr pageCount" and "rasterize (converters j) pageCount = Inr images"
  shows "POST_convert j = PdfResponse pdf \<longleftrightarrow>
     file_present j \<and> (\<exists>key. apiKey j = Some key \<and> key \<noteq> [] \<and> js_trim key \<noteq> []) \<and>
     (\<exists>md. fst (ocr_phase (ocr j) images) = Inr md \<and> render j md = Inr pdf)"
  using assms
  by (cases "fst (ocr_phase (ocr j) images)")
     (auto simp: POST_convert_def caught_def split: option.splits sum.splits)

lemma other_chunk_pages:
  assumes "CHUNK_SIZE dvd cs" "CHUNK_SIZE dvd cs'" "cs' \<noteq> cs" "i < CHUNK_SIZE"
  shows "Suc (cs' + i) \<le> cs \<or> cs + CHUNK_SIZE < Suc (cs' + i)"
proof -
  from assms(1,2) obtain k k' where "cs = 2 * k" "cs' = 2 * k'"
    unfolding CHUNK_SIZE_def by blast
  with assms(3,4) show ?thesis
    by (auto simp: CHUNK_SIZE_def)
qed

lemma ocr_phase_retry_transparent:
  assumes "N \<le> MAX_RETRIES"
    and "CHUNK_SIZE dvd cs" and "cs < length images"
    and "chunk = slice cs (min (cs + CHUNK_SIZE) (length images)) images"
    and "\<forall>a. 1 \<le> a \<and> a \<le> N \<longrightarrow> isl (attempt_chunk e1 cs chunk a)"
    and "\<not> isl (attempt_chunk e1 cs chunk (N + 1))"
    and "\<forall>img p. cs < p \<and> p \<le> cs + CHUNK_SIZE \<longrightarrow>
           generateContent e2 img p 1 = generateContent e1 img p (N + 1)"
    and "\<forall>img p a. p \<le> cs \<or> cs + CHUNK_SIZE < p \<longrightarrow>
           generateContent e2 img p a = generateContent e1 img p a"
  shows "fst (ocr_phase e1 images) = Inr md \<longleftrightarrow> fst (ocr_phase e2 images) = Inr md"
  unfolding ocr_phase_def
proof (rule chunk_loop_same_ok)
  show "CHUNK_SIZE dvd (0::nat)" by simp
next
  fix cs' m
  assume dvd: "CHUNK_SIZE dvd cs'" and lt: "cs' < length images"
  let ?chunk = "slice cs' (min (cs' + CHUNK_SIZE) (length images)) images"
  have len: "length ?chunk \<le> CHUNK_SIZE"
    by (simp add: slice_def)
  show "fst (attempt_loop e1 cs' ?chunk 1 None) = Inr m \<longleftrightarrow>
        fst (attempt_loop e2 cs' ?chunk 1 None) = Inr m"
  proof (cases "cs' = cs")
    case False
    have "attempt_chunk e1 cs' ?chunk a = Inr t \<longleftrightarrow> attempt_chunk e2 cs' ?chunk a = Inr t" for a t
    proof (rule attempt_chunk_same_workers)
      fix i assume "i < length ?chunk"
      with len have "i < CHUNK_SIZE" by simp
      from other_chunk_pages [OF assms(2) dvd False this] assms(8)
      have "generateContent e1 (?chunk ! i) (Suc (cs' + i)) a =
            generateContent e2 (?chunk ! i) (Suc (cs' + i)) a"
        by metis
      then show "page_worker e1 (?chunk ! i) (Suc (cs' + i)) a =
                 page_worker e2 (?chunk ! i) (Suc (cs' + i)) a"
        by (rule page_worker_same_response)
    qed
    then show ?thesis
      by (rule attempt_loop_same_attempts)
  next
    case True
    from assms(6) obtain t where t: "attempt_chunk e1 cs chunk (N + 1) = Inr t"
      by (cases "attempt_chunk e1 cs chunk (N + 1)") auto
    have "attempt_chunk e1 cs chunk (N + 1) = Inr t \<longleftrightarrow> attempt_chunk e2 cs chunk 1 = Inr t"
    proof (rule attempt_chunk_same_workers)
      fix i assume "i < length chunk"
      then have "i < CHUNK_SIZE" by (simp add: assms(4) slice_def)
      then have "cs < Suc (cs + i) \<and> Suc (cs + i) \<le> cs + CHUNK_SIZE" by simp
      with assms(7) have "generateContent e1 (chunk ! i) (Suc (cs + i)) (N + 1) =
            generateContent e2 (chunk ! i) (Suc (cs + i)) 1"
        by metis
      then show "page_worker e1 (chunk ! i) (Suc (cs + i)) (N + 1) =
                 page_worker e2 (chunk ! i) (Suc (cs + i)) 1"
        by (rule page_worker_same_response)
    qed
    with t have t2: "attempt_chunk e2 cs chunk (0 + 1) = Inr t" by simp
    have 1: "fst (attempt_loop e1 cs chunk 1 None) = Inr m \<longleftrightarrow> m = t"
      by (rule attempt_loop_after_failures [OF assms(1,5) t])
    have 2: "fst (attempt_loop e2 cs chunk 1 None) = Inr m \<longleftrightarrow> m = t"
      by (rule attempt_loop_after_failures [OF _ _ t2]) simp_all
    from 1 2 show ?thesis
      unfolding True assms(4) [symmetric] by simp
  qed
qed

text \<open>
  Claim C5. Take a job whose images are split into chunks, one of its chunks (starting
  after page \<open>cs\<close>) and \<open>N \<le> MAX_RETRIES\<close>. With an OCR service \<open>e1\<close> for which that chunk
  fails on attempts 1 to \<open>N\<close> and succeeds on attempt \<open>N + 1\<close>, and a service \<open>e2\<close> that
  answers the calls for the chunk's pages on attempt 1 as \<open>e1\<close> does on attempt \<open>N + 1\<close>
  and the calls for all other pages as \<open>e1\<close> does, the job returns a document with \<open>e1\<close>
  exactly when it does with \<open>e2\<close>, and it is the same document.
\<close>

theorem retry_transparent:
  assumes "N \<le> MAX_RETRIES"
    and "loaded_pageCount j = Inr pageCount" and "rasterize (converters j) pageCount = Inr images"
    and "CHUNK_SIZE dvd cs" and "cs < length images"
    and "chunk = slice cs (min (cs + CHUNK_SIZE) (length images)) images"
    and "\<forall>a. 1 \<le> a \<and> a \<le> N \<longrightarrow> isl (attempt_chunk e1 cs chunk a)"
    and "\<not> isl (attempt_chunk e1 cs chunk (N + 1))"
    and "\<forall>img p. cs < p \<and> p \<le> cs + CHUNK_SIZE \<longrightarrow>
           generateContent e2 img p 1 = generateContent e1 img p (N + 1)"
    and "\<forall>img p a. p \<le> cs \<or> cs + CHUNK_SIZE < p \<longrightarrow>
           generateContent e2 img p a = generateContent e1 img p a"
  shows "POST_convert (j\<lparr>ocr := e1\<rparr>) = PdfResponse pdf \<longleftrightarrow>
         POST_convert (j\<lparr>ocr := e2\<rparr>) = PdfResponse pdf"
proof -
  have "fst (ocr_phase e1 images) = Inr md \<longleftrightarrow> fst (ocr_phase e2 images) = Inr md" for md
    by (rule ocr_phase_retry_transparent [OF assms(1) assms(4-10)])
  moreover have "POST_convert (j\<lparr>ocr := e\<rparr>) = PdfResponse pdf \<longleftrightarrow>
     file_present j \<and> (\<exists>key. apiKey j = Some key \<and> key \<noteq> [] \<and> js_trim key \<noteq> []) \<and>
     (\<exists>md. fst (ocr_phase e images) = Inr md \<and> render j md = Inr pdf)" for e
    using job_returns_pdf [of "j\<lparr>ocr := e\<rparr>" pageCount images pdf] assms(2,3) by simp
  ultimately show ?thesis by simp
qed

theorem retry_transparent_witness:
  "POST_convert (sample_job\<lparr>ocr := sample_ocr\<rparr>) =
     PdfResponse (''PDF of page 1'' @ separator @ ''page 2'' @ separator @ ''page 3'') \<and>
   POST_convert (sample_job\<lparr>ocr := first_try_ocr\<rparr>) =
     PdfResponse (''PDF of page 1'' @ separator @ ''page 2'' @ separator @ ''page 3'')"
proof -
  have 1: "(1::nat) \<le> MAX_RETRIES" by (simp add: MAX_RETRIES_def)
  have 2: "loaded_pageCount sample_job = Inr 3"
    "rasterize (converters sample_job) 3 = Inr sample_images"
    by (simp_all add: sample_job_def sample_rasterize)
  have 3: "CHUNK_SIZE dvd (2::nat)" "2 < length sample_images"
    "[30] = slice 2 (min (2 + CHUNK_SIZE) (length sample_images)) sample_images"
    by (simp_all add: CHUNK_SIZE_def sample_images_def slice_def)
  have "isl (attempt_chunk sample_ocr 2 [30] 1)" by code_simp
  then have 4: "\<forall>a. 1 \<le> a \<and> a \<le> 1 \<longrightarrow> isl (attempt_chunk sample_ocr 2 [30] a)"
    by (auto simp: le_antisym)
  have 5: "\<not> isl (attempt_chunk sample_ocr 2 [30] (1 + 1))" by code_simp
  have 6: "\<forall>img p. 2 < p \<and> p \<le> 2 + CHUNK_SIZE \<longrightarrow>
      generateContent first_try_ocr img p 1 = generateContent sample_ocr img p (1 + 1)"
    by (simp add: first_try_ocr_def sample_ocr_def)
  have 7: "\<forall>img p a. p \<le> 2 \<or> 2 + CHUNK_SIZE < p \<longrightarrow>
      generateContent first_try_ocr img p a = generateContent sample_ocr img p a"
    by (auto simp: first_try_ocr_def sample_ocr_def CHUNK_SIZE_def)
  have "fst (ocr_phase first_try_ocr sample_images) =
      Inr (''page 1'' @ separator @ ''page 2'' @ separator @ ''page 3'')"
    by code_simp
  then have "POST_convert (sample_job\<lparr>ocr := first_try_ocr\<rparr>) =
     PdfResponse (''PDF of page 1'' @ separator @ ''page 2'' @ separator @ ''page 3'')"
    using 2 by (simp add: POST_convert_def sample_job_def js_trim_def is_white_space_def)
  with retry_transparent [OF 1 2 3 4 5 6 7] show ?thesis
    by simp
qed

section \<open>Five pages in three chunks\<close>

text \<open>
  Claim C8. For a document of five pages (chunk size 2) whose OCR phase completes, the
  scheduler begins chunk 1 with pages 1 to 2, chunk 2 with pages 3 to 4 and chunk 3 with
  page 5, in that order, and the assembled text is the three chunk bodies with the
  separator between the first and the second and between the second and the third, and
  nothing after the third.
\<close>

theorem five_pages_three_chunks:
  assumes "length images = 5" and "fst (ocr_phase env images) = Inr md"
  shows "\<exists>a1 a2 a3 b1 b2 b3.
     attempt_chunk env 0 [images ! 0, images ! 1] a1 = Inr b1 \<and>
     attempt_chunk env 2 [images ! 2, images ! 3] a2 = Inr b2 \<and>
     attempt_chunk env 4 [images ! 4] a3 = Inr b3 \<and>
     md = b1 @ separator @ b2 @ separator @ b3 \<and>
     filter is_ChunkBegin (snd (ocr_phase env images)) =
       [ChunkBegin 1 1 2, ChunkBegin 2 3 4, ChunkBegin 3 5 5]"
proof -
  from assms(1) obtain i0 i1 i2 i3 i4 where images: "images = [i0, i1, i2, i3, i4]"
    by (auto simp: length_Suc_conv eval_nat_numeral)
  have s0: "slice 0 (min (0 + CHUNK_SIZE) (length images)) images = [i0, i1]"
    and s2: "slice 2 (min (2 + CHUNK_SIZE) (length images)) images = [i2, i3]"
    and s4: "slice 4 (min (4 + CHUNK_SIZE) (length images)) images = [i4]"
    by (simp_all add: images slice_def CHUNK_SIZE_def)
  have loop: "\<exists>a b. attempt_chunk env cs chunk a = Inr b \<and>
      fst (attempt_loop env cs chunk 1 None) = Inr b \<and>
      filter is_ChunkBegin (snd (attempt_loop env cs chunk 1 None)) = []"
    if "fst (chunk_loop env images cs full) = Inr md" "cs < length images"
      "chunk = slice cs (min (cs + CHUNK_SIZE) (length images)) images" for cs chunk full
  proof (cases "fst (attempt_loop env cs chunk 1 None)")
    case (Inl le)
    with that show ?thesis
      using chunk_loop_fail [of cs images env le full] by simp
  next
    case (Inr b)
    then obtain a where "attempt_chunk env cs chunk a = Inr b"
      unfolding attempt_loop_Inr by blast
    moreover from attempt_loop_trace [of 1 env cs chunk None]
    have "filter is_ChunkBegin (snd (attempt_loop env cs chunk 1 None)) = []"
      by (auto simp: filter_concat filter_empty_conv)
    ultimately show ?thesis using Inr by blast
  qed
  have l0: "0 < length images" and l2: "2 < length images" and l4: "4 < length images"
    and l6: "\<not> 6 < length images"
    by (simp_all add: assms(1))
  from assms(2) have c0: "fst (chunk_loop env images 0 []) = Inr md"
    by (simp add: ocr_phase_def)
  from loop [OF c0 l0 s0 [symmetric]] obtain a1 b1 where 1: "attempt_chunk env 0 [i0, i1] a1 = Inr b1"
    "fst (attempt_loop env 0 [i0, i1] 1 None) = Inr b1"
    "filter is_ChunkBegin (snd (attempt_loop env 0 [i0, i1] 1 None)) = []"
    by blast
  have e0: "fst (chunk_loop env images 0 []) = fst (chunk_loop env images 2 (b1 @ separator))"
    and t0: "snd (chunk_loop env images 0 []) = ChunkBegin 1 1 2 #
      snd (attempt_loop env 0 [i0, i1] 1 None) @ snd (chunk_loop env images 2 (b1 @ separator))"
    using chunk_loop_step [OF l0, of env b1 "[]"] chunk_loop_trace_step [OF l0, of env b1 "[]"] 1(2)
    unfolding s0 by (simp_all add: CHUNK_SIZE_def assms(1) del: add_2_eq_Suc add_2_eq_Suc')
  with c0 have c2: "fst (chunk_loop env images 2 (b1 @ separator)) = Inr md" by simp
  from loop [OF c2 l2 s2 [symmetric]] obtain a2 b2 where 2: "attempt_chunk env 2 [i2, i3] a2 = Inr b2"
    "fst (attempt_loop env 2 [i2, i3] 1 None) = Inr b2"
    "filter is_ChunkBegin (snd (attempt_loop env 2 [i2, i3] 1 None)) = []"
    by blast
  have e2: "fst (chunk_loop env images 2 (b1 @ separator)) =
      fst (chunk_loop env images 4 (b1 @ separator @ b2 @ separator))"
    and t2: "snd (chunk_loop env images 2 (b1 @ separator)) = ChunkBegin 2 3 4 #
      snd (attempt_loop env 2 [i2, i3] 1 None) @
      snd (chunk_loop env images 4 (b1 @ separator @ b2 @ separator))"
    using chunk_loop_step [OF l2, of env b2 "b1 @ separator"]
      chunk_loop_trace_step [OF l2, of env b2 "b1 @ separator"] 2(2)
    unfolding s2 by (simp_all add: CHUNK_SIZE_def assms(1) del: add_2_eq_Suc add_2_eq_Suc')
  with c2 have c4: "fst (chunk_loop env images 4 (b1 @ separator @ b2 @ separator)) = Inr md" by simp
  from loop [OF c4 l4 s4 [symmetric]] obtain a3 b3 where 3: "attempt_chunk env 4 [i4] a3 = Inr b3"
    "fst (attempt_loop env 4 [i4] 1 None) = Inr b3"
    "filter is_ChunkBegin (snd (attempt_loop env 4 [i4] 1 None)) = []"
    by blast
  have e4: "fst (chunk_loop env images 4 (b1 @ separator @ b2 @ separator)) =
      Inr (b1 @ separator @ b2 @ separator @ b3)"
    and t4: "snd (chunk_loop env images 4 (b1 @ separator @ b2 @ separator)) = ChunkBegin 3 5 5 #
      snd (attempt_loop env 4 [i4] 1 None)"
    using chunk_loop_step [OF l4, of env b3 "b1 @ separator @ b2 @ separator"]
      chunk_loop_trace_step [OF l4, of env b3 "b1 @ separator @ b2 @ separator"] 3(2)
      chunk_loop_done [of 6 images env]
    unfolding s4 by (simp_all add: CHUNK_SIZE_def assms(1) del: add_2_eq_Suc add_2_eq_Suc')
  with c4 have md: "md = b1 @ separator @ b2 @ separator @ b3" by simp
  have "filter is_ChunkBegin (snd (ocr_phase env images)) =
       [ChunkBegin 1 1 2, ChunkBegin 2 3 4, ChunkBegin 3 5 5]"
    using 1(3) 2(3) 3(3) by (simp add: ocr_phase_def t0 t2 t4)
  with 1(1) 2(1) 3(1) md show ?thesis
    unfolding images by (intro exI [of _ a1] exI [of _ a2] exI [of _ a3] exI [of _ b1] exI [of _ b2] exI [of _ b3]) simp
qed

theorem five_pages_three_chunks_witness:
  "fst (ocr_phase first_try_ocr five_images) =
     Inr (''page 1'' @ separator @ ''page 2'' @ separator @ ''page 3'' @ separator @
          ''page 4'' @ separator @ ''page 5'') \<and>
   (\<exists>a1 a2 a3 b1 b2 b3.
     attempt_chunk first_try_ocr 0 [five_images ! 0, five_images ! 1] a1 = Inr b1 \<and>
     attempt_chunk first_try_ocr 2 [five_images ! 2, five_images ! 3] a2 = Inr b2 \<and>
     attempt_chunk first_try_ocr 4 [five_images ! 4] a3 = Inr b3 \<and>
     ''page 1'' @ separator @ ''page 2'' @ separator @ ''page 3'' @ separator @
       ''page 4'' @ separator @ ''page 5'' = b1 @ separator @ b2 @ separator @ b3 \<and>
     filter is_ChunkBegin (snd (ocr_phase first_try_ocr five_images)) =
       [ChunkBegin 1 1 2, ChunkBegin 2 3 4, ChunkBegin 3 5 5])"
proof -
  have len: "length five_images = 5"
    by (simp add: five_images_def)
  have run: "fst (ocr_phase first_try_ocr five_images) =
     Inr (''page 1'' @ separator @ ''page 2'' @ separator @ ''page 3'' @ separator @
          ''page 4'' @ separator @ ''page 5'')"
    by code_simp
  from five_pages_three_chunks [OF len run] run show ?thesis
    by blast
qed

section \<open>The log window of the progress store\<close>

lemma last50_length: "length (last50 xs) \<le> 50"
  by (simp add: last50_def)

lemma last50_snoc:
  "length xs \<le> 50 \<Longrightarrow>
   last50 (xs @ [x]) = (if length xs < 50 then xs @ [x] else tl xs @ [x])"
  by (cases xs) (auto simp: last50_def)

text \<open>What an accepted update stores, for a record whose \<open>logs\<close> is an array.\<close>

lemma POST_progress_accepted:
  assumes "fid \<noteq> []" and "truthy u"
    and "existing = (case progressStore srv fid of None \<Rightarrow> default_progress | Some p \<Rightarrow> p)"
    and "existing ''logs'' = Some (JArr logs)"
  shows "POST_progress srv (Some fid) (Some u) =
     (JsonResponse 200 (JObj [''success'' \<mapsto> JBool True]),
      srv\<lparr>progressStore := (progressStore srv)(fid \<mapsto>
              (existing ++ spread u)
                (''logs'' \<mapsto> JArr (last50 (filter truthy (logs @ [or_else (prop_log u) (JStr [])]))))),
          timers := timers srv @ [(now srv + 3600000, fid)]\<rparr>)"
  using assms by (simp add: POST_progress_def or_else_def Let_def)

lemma POST_progress_rejected:
  "fileId = None \<or> fileId = Some [] \<or> update = None \<or> (\<exists>u. update = Some u \<and> \<not> truthy u) \<Longrightarrow>
   snd (POST_progress srv fileId update) = srv"
  by (auto simp: POST_progress_def split: option.splits)

lemma default_logs: "default_progress ''logs'' = Some (JArr [])"
  by (simp add: default_progress_def)

text \<open>The invariant of the store: every record's \<open>logs\<close> is an array of at most 50 truthy entries.\<close>

lemma POST_progress_invariant:
  assumes "\<forall>fid p. progressStore srv fid = Some p \<longrightarrow>
      (\<exists>logs. p ''logs'' = Some (JArr logs) \<and> length logs \<le> 50 \<and> list_all truthy logs)"
  shows "\<forall>fid p. progressStore (snd (POST_progress srv fileId update)) fid = Some p \<longrightarrow>
      (\<exists>logs. p ''logs'' = Some (JArr logs) \<and> length logs \<le> 50 \<and> list_all truthy logs)"
proof (cases "fileId = None \<or> fileId = Some [] \<or> update = None \<or> (\<exists>u. update = Some u \<and> \<not> truthy u)")
  case True
  from POST_progress_rejected [OF this] assms show ?thesis by simp
next
  case False
  then obtain f u where fu: "fileId = Some f" "f \<noteq> []" "update = Some u" "truthy u"
    by (cases fileId; cases update) auto
  define existing where "existing = (case progressStore srv f of None \<Rightarrow> default_progress | Some p \<Rightarrow> p)"
  have "\<exists>logs. existing ''logs'' = Some (JArr logs)"
    using assms by (cases "progressStore srv f") (auto simp: existing_def default_logs)
  then obtain logs where logs: "existing ''logs'' = Some (JArr logs)" ..
  let ?new = "last50 (filter truthy (logs @ [or_else (prop_log u) (JStr [])]))"
  define updated where "updated = (existing ++ spread u)(''logs'' \<mapsto> JArr ?new)"
  have store: "progressStore (snd (POST_progress srv fileId update)) = (progressStore srv)(f \<mapsto> updated)"
    unfolding fu POST_progress_accepted [OF fu(2,4) existing_def logs] updated_def by simp
  have "set ?new \<subseteq> set (filter truthy (logs @ [or_else (prop_log u) (JStr [])]))"
    unfolding last50_def by (rule set_drop_subset)
  then have "list_all truthy ?new"
    unfolding list_all_iff by auto
  moreover have "length ?new \<le> 50"
    by (rule last50_length)
  moreover have "updated ''logs'' = Some (JArr ?new)"
    unfolding updated_def by simp
  ultimately have new: "\<exists>logs. updated ''logs'' = Some (JArr logs) \<and> length logs \<le> 50 \<and> list_all truthy logs"
    by blast
  show ?thesis
  proof (intro allI impI)
    fix fid p
    assume p: "progressStore (snd (POST_progress srv fileId update)) fid = Some p"
    show "\<exists>logs. p ''logs'' = Some (JArr logs) \<and> length logs \<le> 50 \<and> list_all truthy logs"
    proof (cases "fid = f")
      case True
      with p store have "p = updated" by simp
      with new show ?thesis by simp
    next
      case False
      with p store have "progressStore srv fid = Some p" by simp
      with assms show ?thesis by blast
    qed
  qed
qed

lemma fold_delete:
  "fold (\<lambda>(deadline, fid) store. if deadline \<le> t then store(fid := None) else store) ts store x =
     (if \<exists>d. (d, x) \<in> set ts \<and> d \<le> t then None else store x)"
  by (induction ts arbitrary: store) auto

lemma advance_store:
  "progressStore (advance t srv) fid =
     (if \<exists>d. (d, fid) \<in> set (timers srv) \<and> d \<le> t then None else progressStore srv fid)"
  by (simp add: advance_def fold_delete)

lemma run_posts_invariant:
  assumes "\<forall>fid p. progressStore srv fid = Some p \<longrightarrow>
      (\<exists>logs. p ''logs'' = Some (JArr logs) \<and> length logs \<le> 50 \<and> list_all truthy logs)"
  shows "\<forall>fid p. progressStore (run_posts reqs srv) fid = Some p \<longrightarrow>
      (\<exists>logs. p ''logs'' = Some (JArr logs) \<and> length logs \<le> 50 \<and> list_all truthy logs)"
  using assms
proof (induction reqs arbitrary: srv)
  case Nil
  then show ?case by simp
next
  case (Cons req reqs)
  obtain t fileId update where req: "req = (t, fileId, update)"
    by (cases req) auto
  have "\<forall>fid p. progressStore (advance t srv) fid = Some p \<longrightarrow>
      (\<exists>logs. p ''logs'' = Some (JArr logs) \<and> length logs \<le> 50 \<and> list_all truthy logs)"
    using Cons.prems by (simp add: advance_store)
  from POST_progress_invariant [OF this]
  have "\<forall>fid p. progressStore (post_at t fileId update srv) fid = Some p \<longrightarrow>
      (\<exists>logs. p ''logs'' = Some (JArr logs) \<and> length logs \<le> 50 \<and> list_all truthy logs)"
    by (simp add: post_at_def)
  from Cons.IH [OF this] show ?case
    by (simp add: req)
qed

text \<open>
  Claim C6. After any sequence of updates posted at any times (with the expiry timers
  firing in between), the \<open>logs\<close> of every stored record is an array of at most 50
  entries; and posting one more update with a non-empty log line to a stored record
  appends the line and, when the window already holds 50 entries, drops the oldest one.
\<close>

theorem log_window_bounded:
  assumes "progressStore (run_posts reqs initial_server) fid = Some p"
  shows "\<exists>logs. p ''logs'' = Some (JArr logs) \<and> length logs \<le> 50 \<and>
     (\<forall>u line. fid \<noteq> [] \<and> prop_log u = Some line \<and> truthy line \<longrightarrow>
        (\<exists>p'. progressStore (snd (POST_progress (run_posts reqs initial_server) (Some fid) (Some u))) fid
                = Some p' \<and>
              p' ''logs'' =
                Some (JArr (if length logs < 50 then logs @ [line] else tl logs @ [line]))))"
proof -
  let ?srv = "run_posts reqs initial_server"
  have "\<forall>fid p. progressStore initial_server fid = Some p \<longrightarrow>
      (\<exists>logs. p ''logs'' = Some (JArr logs) \<and> length logs \<le> 50 \<and> list_all truthy logs)"
    by (simp add: initial_server_def)
  from run_posts_invariant [OF this, of reqs] assms
  obtain logs where logs: "p ''logs'' = Some (JArr logs)" "length logs \<le> 50" "list_all truthy logs"
    by blast
  have "\<exists>p'. progressStore (snd (POST_progress ?srv (Some fid) (Some u))) fid = Some p' \<and>
        p' ''logs'' = Some (JArr (if length logs < 50 then logs @ [line] else tl logs @ [line]))"
    if "fid \<noteq> []" "prop_log u = Some line" "truthy line" for u line
  proof -
    from that(2) have u: "truthy u" by (cases u) auto
    have e: "p = (case progressStore ?srv fid of None \<Rightarrow> default_progress | Some p \<Rightarrow> p)"
      using assms by simp
    have "filter truthy (logs @ [or_else (prop_log u) (JStr [])]) = logs @ [line]"
      using logs(3) that(2,3) by (simp add: or_else_def list_all_iff)
    then show ?thesis
      unfolding POST_progress_accepted [OF that(1) u e logs(1)]
      using logs(2) by (simp add: last50_snoc)
  qed
  with logs(1,2) show ?thesis by blast
qed

lemma sample_post:
  "progressStore (run_posts [(0, Some ''job-1'', Some sample_update)] initial_server) ''job-1'' =
     Some ((default_progress ++ spread sample_update)(''logs'' \<mapsto> JArr [JStr ''page 1 sent'']))"
proof -
  have "advance 0 initial_server = initial_server"
    by (simp add: advance_def initial_server_def)
  moreover have "truthy sample_update" "prop_log sample_update = Some (JStr ''page 1 sent'')"
    by (simp_all add: sample_update_def)
  moreover have "progressStore initial_server ''job-1'' = None"
    by (simp add: initial_server_def)
  ultimately show ?thesis
    by (simp add: post_at_def POST_progress_accepted [where logs = "[]"] default_logs
        or_else_def last50_def)
qed

theorem log_window_bounded_witness:
  "\<exists>p logs. progressStore (run_posts [(0, Some ''job-1'', Some sample_update)] initial_server) ''job-1''
       = Some p \<and>
     p ''logs'' = Some (JArr logs) \<and> length logs \<le> 50 \<and>
     (\<forall>u line. ''job-1'' \<noteq> [] \<and> prop_log u = Some line \<and> truthy line \<longrightarrow>
        (\<exists>p'. progressStore (snd (POST_progress
                   (run_posts [(0, Some ''job-1'', Some sample_update)] initial_server)
                   (Some ''job-1'') (Some u))) ''job-1'' = Some p' \<and>
              p' ''logs'' =
                Some (JArr (if length logs < 50 then logs @ [line] else tl logs @ [line]))))"
proof -
  let ?p = "(default_progress ++ spread sample_update)(''logs'' \<mapsto> JArr [JStr ''page 1 sent''])"
  from log_window_bounded [OF sample_post]
  obtain logs where "?p ''logs'' = Some (JArr logs) \<and> length logs \<le> 50 \<and>
     (\<forall>u line. ''job-1'' \<noteq> [] \<and> prop_log u = Some line \<and> truthy line \<longrightarrow>
        (\<exists>p'. progressStore (snd (POST_progress
                   (run_posts [(0, Some ''job-1'', Some sample_update)] initial_server)
                   (Some ''job-1'') (Some u))) ''job-1'' = Some p' \<and>
              p' ''logs'' =
                Some (JArr (if length logs < 50 then logs @ [line] else tl logs @ [line]))))" ..
  with sample_post show ?thesis
    by (intro exI [of _ ?p] exI [of _ logs] conjI) (rule sample_post, simp_all)
qed

section \<open>Progress queries\<close>

text \<open>
  Claim C7. For a job id (a non-empty string) with no record, the query answers with
  status 404 and the error \<open>Progress not found\<close>; and right after one accepted update
  for such an id, the query answers with the default record (zero counts, status
  \<open>starting\<close>) overridden by the properties of the update, its \<open>logs\<close> holding exactly the
  update's log line (none when the update has no log line or an empty one).
\<close>

theorem progress_query:
  assumes "fid \<noteq> []" and "progressStore srv fid = None"
  shows "GET_progress srv (Some fid) = JsonResponse 404 (error_body ''Progress not found'') \<and>
     (truthy u \<longrightarrow>
        GET_progress (snd (POST_progress srv (Some fid) (Some u))) (Some fid) =
          JsonResponse 200
            (JObj ((default_progress ++ spread u)
               (''logs'' \<mapsto> JArr (case prop_log u of
                                    None \<Rightarrow> []
                                  | Some line \<Rightarrow> if truthy line then [line] else [])))))"
proof
  show "GET_progress srv (Some fid) = JsonResponse 404 (error_body ''Progress not found'')"
    using assms by (simp add: GET_progress_def)
next
  show "truthy u \<longrightarrow>
        GET_progress (snd (POST_progress srv (Some fid) (Some u))) (Some fid) =
          JsonResponse 200
            (JObj ((default_progress ++ spread u)
               (''logs'' \<mapsto> JArr (case prop_log u of
                                    None \<Rightarrow> []
                                  | Some line \<Rightarrow> if truthy line then [line] else []))))"
  proof
    assume u: "truthy u"
    have e: "default_progress = (case progressStore srv fid of None \<Rightarrow> default_progress | Some p \<Rightarrow> p)"
      using assms(2) by simp
    have "last50 (filter truthy ([] @ [or_else (prop_log u) (JStr [])])) =
        (case prop_log u of None \<Rightarrow> [] | Some line \<Rightarrow> if truthy line then [line] else [])"
      by (simp add: or_else_def last50_def split: option.splits)
    then show "GET_progress (snd (POST_progress srv (Some fid) (Some u))) (Some fid) =
          JsonResponse 200
            (JObj ((default_progress ++ spread u)
               (''logs'' \<mapsto> JArr (case prop_log u of
                                    None \<Rightarrow> []
                                  | Some line \<Rightarrow> if truthy line then [line] else []))))"
      unfolding POST_progress_accepted [OF assms(1) u e default_logs]
      using assms(1) by (simp add: GET_progress_def)
  qed
qed

theorem progress_query_witness:
  "GET_progress initial_server (Some ''job-1'') = JsonResponse 404 (error_body ''Progress not found'') \<and>
   GET_progress (snd (POST_progress initial_server (Some ''job-1'') (Some sample_update))) (Some ''job-1'') =
     JsonResponse 200
       (JObj [''totalPages'' \<mapsto> JNum 0, ''processedPages'' \<mapsto> JNum 0, ''currentChunk'' \<mapsto> JNum 0,
              ''totalChunks'' \<mapsto> JNum 0, ''status'' \<mapsto> JStr ''Sending page 1'',
              ''log'' \<mapsto> JStr ''page 1 sent'', ''logs'' \<mapsto> JArr [JStr ''page 1 sent'']])"
proof -
  have 1: "''job-1'' \<noteq> []" by simp
  have 2: "progressStore initial_server ''job-1'' = None"
    by (simp add: initial_server_def)
  have 3: "truthy sample_update" by (simp add: sample_update_def)
  have "(default_progress ++ spread sample_update)
           (''logs'' \<mapsto> JArr (case prop_log sample_update of
                                    None \<Rightarrow> []
                                  | Some line \<Rightarrow> if truthy line then [line] else [])) =
       [''totalPages'' \<mapsto> JNum 0, ''processedPages'' \<mapsto> JNum 0, ''currentChunk'' \<mapsto> JNum 0,
        ''totalChunks'' \<mapsto> JNum 0, ''status'' \<mapsto> JStr ''Sending page 1'',
        ''log'' \<mapsto> JStr ''page 1 sent'', ''logs'' \<mapsto> JArr [JStr ''page 1 sent'']]"
    by (rule ext) (simp add: default_progress_def sample_update_def map_add_def)
  with progress_query [OF 1 2, of sample_update] 3 show ?thesis
    by simp
qed

section \<open>Expiry of progress records\<close>

lemma post_at_accepted_fresh:
  assumes "fid \<noteq> []" and "truthy u" and "progressStore (advance t srv) fid = None"
  shows "post_at t (Some fid) (Some u) srv =
     (advance t srv)\<lparr>progressStore := (progressStore (advance t srv))(fid \<mapsto>
              (default_progress ++ spread u)
                (''logs'' \<mapsto> JArr (last50 (filter truthy ([] @ [or_else (prop_log u) (JStr [])]))))),
          timers := timers (advance t srv) @ [(now (advance t srv) + 3600000, fid)]\<rparr>"
proof -
  have e: "default_progress =
      (case progressStore (advance t srv) fid of None \<Rightarrow> default_progress | Some p \<Rightarrow> p)"
    using assms(3) by simp
  show ?thesis
    unfolding post_at_def POST_progress_accepted [OF assms(1,2) e default_logs] by simp
qed

lemma post_at_accepted_stored:
  assumes "fid \<noteq> []" and "truthy u" and "progressStore (advance t srv) fid = Some p"
    and "p ''logs'' = Some (JArr logs)"
  shows "post_at t (Some fid) (Some u) srv =
     (advance t srv)\<lparr>progressStore := (progressStore (advance t srv))(fid \<mapsto>
              (p ++ spread u)
                (''logs'' \<mapsto> JArr (last50 (filter truthy (logs @ [or_else (prop_log u) (JStr [])]))))),
          timers := timers (advance t srv) @ [(now (advance t srv) + 3600000, fid)]\<rparr>"
proof -
  have e: "p = (case progressStore (advance t srv) fid of None \<Rightarrow> default_progress | Some p \<Rightarrow> p)"
    using assms(3) by simp
  show ?thesis
    unfolding post_at_def POST_progress_accepted [OF assms(1,2) e assms(4)] by simp
qed

text \<open>
  Claim C9, refuted as stated: a record written at time 0 and again at time 1,800,000 is
  still stored at time 3,599,999 and is gone at time 3,600,000, one hour after the first
  write and half an hour after the most recent one.
\<close>

theorem expiry_not_extended_counterexample:
  "progressStore
     (advance 3599999
       (post_at 1800000 (Some ''job-1'') (Some sample_update)
         (post_at 0 (Some ''job-1'') (Some sample_update) initial_server))) ''job-1'' \<noteq> None \<and>
   progressStore
     (advance 3600000
       (post_at 1800000 (Some ''job-1'') (Some sample_update)
         (post_at 0 (Some ''job-1'') (Some sample_update) initial_server))) ''job-1'' = None \<and>
   (3600000::nat) < 1800000 + 3600000"
proof -
  have u: "truthy sample_update" by (simp add: sample_update_def)
  have id: "''job-1'' \<noteq> []" by simp
  define s1 where "s1 = post_at 0 (Some ''job-1'') (Some sample_update) initial_server"
  define s2 where "s2 = post_at 1800000 (Some ''job-1'') (Some sample_update) s1"
  have a0: "advance 0 initial_server = initial_server"
    by (simp add: advance_def initial_server_def)
  have "progressStore (advance 0 initial_server) ''job-1'' = None"
    by (simp add: a0) (simp add: initial_server_def)
  from post_at_accepted_fresh [OF id u this]
  have s1: "timers s1 = [(3600000, ''job-1'')]" "now s1 = 0"
    "\<exists>p logs. progressStore s1 ''job-1'' = Some p \<and> p ''logs'' = Some (JArr logs)"
    unfolding s1_def by (simp_all add: a0) (simp_all add: initial_server_def)
  then obtain p logs where p: "progressStore s1 ''job-1'' = Some p" "p ''logs'' = Some (JArr logs)"
    by blast
  have a1: "timers (advance 1800000 s1) = [(3600000, ''job-1'')]"
    "progressStore (advance 1800000 s1) ''job-1'' = Some p" "now (advance 1800000 s1) = 1800000"
    using s1(1,2) p(1) by (simp_all add: advance_store) (simp_all add: advance_def)
  from post_at_accepted_stored [OF id u a1(2) p(2)]
  have s2: "timers s2 = [(3600000, ''job-1''), (5400000, ''job-1'')]"
    "progressStore s2 ''job-1'' \<noteq> None"
    unfolding s2_def by (simp_all add: a1)
  have "progressStore (advance 3599999 s2) ''job-1'' \<noteq> None"
    using s2 by (auto simp: advance_store)
  moreover have "progressStore (advance 3600000 s2) ''job-1'' = None"
    using s2 by (auto simp: advance_store)
  ultimately show ?thesis
    unfolding s2_def s1_def by simp
qed

text \<open>A pending deletion stays pending through the updates posted before its deadline.\<close>

lemma POST_progress_timers:
  "set (timers srv) \<subseteq> set (timers (snd (POST_progress srv fileId update)))"
  by (auto simp: POST_progress_def Let_def split: option.splits sum.splits)

lemma post_at_keeps_timer:
  assumes "(deadline, f) \<in> set (timers srv)" and "t < deadline"
  shows "(deadline, f) \<in> set (timers (post_at t fileId update srv))"
proof -
  from assms have "(deadline, f) \<in> set (timers (advance t srv))"
    by (simp add: advance_def)
  with POST_progress_timers [of "advance t srv" fileId update] show ?thesis
    unfolding post_at_def by blast
qed

lemma run_posts_keeps_timer:
  assumes "(deadline, f) \<in> set (timers srv)" and "\<forall>req\<in>set reqs. fst req < deadline"
  shows "(deadline, f) \<in> set (timers (run_posts reqs srv))"
  using assms
proof (induction reqs arbitrary: srv)
  case Nil
  then show ?case by simp
next
  case (Cons req reqs)
  obtain t fileId update where req: "req = (t, fileId, update)"
    by (cases req) auto
  with Cons.prems have "(deadline, f) \<in> set (timers (post_at t fileId update srv))"
    by (intro post_at_keeps_timer) simp_all
  with Cons show ?case
    by (simp add: req)
qed

text \<open>
  Claim C9, as amended. A write to a job id accepted at time \<open>now\<close> schedules the
  deletion of that id's record for \<open>now + 3600000\<close> and leaves every deletion scheduled
  before pending; whatever updates are posted before that deadline, to this id or to
  others, once the deadline has passed the record is gone from the store.
\<close>

theorem expiry_one_hour_after_each_write:
  assumes "POST_progress srv (Some fid) (Some u) = (JsonResponse 200 body, srv')"
    and "\<forall>req\<in>set reqs. fst req < now srv + 3600000"
    and "now srv + 3600000 \<le> t"
  shows "timers srv' = timers srv @ [(now srv + 3600000, fid)] \<and>
     progressStore (advance t (run_posts reqs srv')) fid = None"
proof -
  from assms(1) have timers: "timers srv' = timers srv @ [(now srv + 3600000, fid)]"
    by (auto simp: POST_progress_def Let_def error_body_def split: if_splits sum.splits)
  then have "(now srv + 3600000, fid) \<in> set (timers srv')"
    by simp
  from run_posts_keeps_timer [OF this assms(2)] assms(3)
  have "progressStore (advance t (run_posts reqs srv')) fid = None"
    by (auto simp: advance_store)
  with timers show ?thesis by simp
qed

theorem expiry_one_hour_after_each_write_witness:
  "timers (snd (POST_progress initial_server (Some ''job-1'') (Some sample_update))) =
     [(3600000, ''job-1'')] \<and>
   progressStore
     (advance 3600000
        (run_posts [(1800000, Some ''job-1'', Some sample_update)]
           (snd (POST_progress initial_server (Some ''job-1'') (Some sample_update)))))
     ''job-1'' = None"
proof -
  let ?r = "POST_progress initial_server (Some ''job-1'') (Some sample_update)"
  have e: "default_progress =
      (case progressStore initial_server ''job-1'' of None \<Rightarrow> default_progress | Some p \<Rightarrow> p)"
    by (simp add: initial_server_def)
  have u: "truthy sample_update" by (simp add: sample_update_def)
  have id: "''job-1'' \<noteq> []" by simp
  have "fst ?r = JsonResponse 200 (JObj [''success'' \<mapsto> JBool True])"
    unfolding POST_progress_accepted [OF id u e default_logs] by simp
  then have 1: "?r = (JsonResponse 200 (JObj [''success'' \<mapsto> JBool True]), snd ?r)"
    by (metis prod.collapse)
  have 2: "\<forall>req\<in>set [(1800000, Some ''job-1'', Some sample_update)].
      fst req < now initial_server + 3600000"
    by (simp add: initial_server_def)
  have 3: "now initial_server + 3600000 \<le> 3600000"
    by (simp add: initial_server_def)
  from expiry_one_hour_after_each_write [OF 1 2 3] show ?thesis
    by (simp add: initial_server_def)
qed

section \<open>Acceptance of a conversion\<close>

text \<open>The first and the last method accept only as many images as the document has pages.\<close>

lemma method1_count:
  "fst (method1_pdf2pic r pageCount) \<Longrightarrow> length (snd (method1_pdf2pic r pageCount)) = pageCount"
  by (auto simp: method1_pdf2pic_def split: if_splits prod.splits)

lemma method5_count:
  "fst (method5_puppeteer r pageCount (False, images)) \<Longrightarrow>
   length (snd (method5_puppeteer r pageCount (False, images))) = pageCount"
  by (auto simp: method5_puppeteer_def split: if_splits prod.splits)

lemma method5_fresh:
  "method5_puppeteer r pageCount (False, images) = method5_puppeteer r pageCount (False, [])"
  by (simp add: method5_puppeteer_def)

lemma method5_done:
  "method5_puppeteer r pageCount (True, images) = (True, images)"
  by (simp add: method5_puppeteer_def)

text \<open>A command-line method is skipped after a success; otherwise it accepts any non-empty list of files.\<close>

lemma method_command_done:
  "method_command c (True, images) = (True, images)"
  by (simp add: method_command_def)

lemma method_command_throws:
  "method_command CommandThrows (False, images) = (False, [])"
  by (simp add: method_command_def)

lemma method_command_files:
  "method_command (ImageFiles imageFiles) (False, images) =
     (if imageFiles = [] then (False, []) else (True, imageFiles))"
  by (simp add: method_command_def)

text \<open>
  Claim C2, refuted as stated. For a four-page document, when pdf2pic cannot be loaded
  and \<open>magick\<close> leaves three images, the three images are accepted: no later method is
  tried and the job returns a document of three pages. When pdf2pic throws after two
  pages and \<open>magick\<close> then converts all four, the six files found are accepted. And for
  a document of no pages, pdf2pic's count of images equals the page count and the job
  fails with the conversion error all the same.
\<close>

theorem acceptance_counterexample:
  "rasterize short_converters 4 = Inr [100, 101, 102] \<and>
   POST_convert short_job =
     PdfResponse (''PDF of page 1'' @ separator @ ''page 2'' @ separator @ ''page 3'') \<and>
   rasterize leftover_converters 4 = Inr [100, 101, 102, 103, 10, 20] \<and>
   method1_pdf2pic sample_converters 0 = (True, []) \<and>
   rasterize sample_converters 0 = Inl (conversion_failed 0 0)"
proof -
  have r: "rasterize short_converters 4 = Inr [100, 101, 102]"
    by (simp add: rasterize_def method5_puppeteer_def method_command_def method1_pdf2pic_def
        short_converters_def)
  have "fst (ocr_phase first_try_ocr [100, 101, 102]) =
      Inr (''page 1'' @ separator @ ''page 2'' @ separator @ ''page 3'')"
    by code_simp
  with r have j: "POST_convert short_job =
     PdfResponse (''PDF of page 1'' @ separator @ ''page 2'' @ separator @ ''page 3'')"
    by (simp add: POST_convert_def short_job_def js_trim_def is_white_space_def)
  have "[1..<4 + 1] = [1, 2, 3, 4::nat]" by code_simp
  then have l: "rasterize leftover_converters 4 = Inr [100, 101, 102, 103, 10, 20]"
    by (simp add: rasterize_def method5_puppeteer_def method_command_def method1_pdf2pic_def
        leftover_converters_def)
  have m: "method1_pdf2pic sample_converters 0 = (True, [])"
    by (simp add: method1_pdf2pic_def sample_converters_def)
  then have "rasterize sample_converters 0 = Inl (conversion_failed 0 0)"
    by (simp add: rasterize_def method5_done method_command_done)
  with r j l m show ?thesis by simp
qed

text \<open>The state after the three command-line methods, when none lists a wrong number of files.\<close>

lemma method_command_exact:
  assumes "c = CommandThrows \<or> c = ImageFiles [] \<or> (\<exists>files. c = ImageFiles files \<and> files \<noteq> [] \<and> length files = n)"
    and "fst st \<longrightarrow> length (snd st) = n"
  shows "fst (method_command c st) \<longleftrightarrow> fst st \<or> (\<exists>files. c = ImageFiles files \<and> files \<noteq> [])"
    and "fst (method_command c st) \<longrightarrow> length (snd (method_command c st)) = n"
proof -
  obtain s images where st: "st = (s, images)" by (cases st)
  show "fst (method_command c st) \<longleftrightarrow> fst st \<or> (\<exists>files. c = ImageFiles files \<and> files \<noteq> [])"
    unfolding st using assms(1)
    by (cases s; cases c)
       (auto simp: method_command_done method_command_throws method_command_files)
  show "fst (method_command c st) \<longrightarrow> length (snd (method_command c st)) = n"
    using assms unfolding st
    by (cases s; cases c)
       (auto simp: method_command_done method_command_throws method_command_files)
qed

text \<open>
  Claim C2, as amended. The pdf2pic method and the Puppeteer method are accepted only
  when they produced as many images as the document has pages. When each of the three
  command-line methods throws, finds no image or finds as many images as the document
  has pages, the images handed on are as many as the pages, and the conversion fails if
  and only if the document has no pages or no method is accepted: pdf2pic is not, every
  command-line method throws or finds no image, and Puppeteer is not.
\<close>

theorem rasterizer_acceptance:
  assumes "\<forall>c\<in>{magick r, convert r, gm_convert r}. \<forall>files.
             c = ImageFiles files \<longrightarrow> files = [] \<or> length files = pageCount"
  shows "(fst (method1_pdf2pic r pageCount) \<longrightarrow>
            length (snd (method1_pdf2pic r pageCount)) = pageCount) \<and>
         (\<forall>images. fst (method5_puppeteer r pageCount (False, images)) \<longrightarrow>
            length (snd (method5_puppeteer r pageCount (False, images))) = pageCount) \<and>
         (\<forall>images. rasterize r pageCount = Inr images \<longrightarrow> length images = pageCount) \<and>
         (isl (rasterize r pageCount) \<longleftrightarrow>
            pageCount = 0 \<or>
            (\<not> fst (method1_pdf2pic r pageCount) \<and>
             (\<forall>c\<in>{magick r, convert r, gm_convert r}. c = CommandThrows \<or> c = ImageFiles []) \<and>
             \<not> fst (method5_puppeteer r pageCount (False, []))))"
proof -
  let ?n = pageCount
  have exact: "c = CommandThrows \<or> c = ImageFiles [] \<or>
      (\<exists>files. c = ImageFiles files \<and> files \<noteq> [] \<and> length files = ?n)"
    if "c \<in> {magick r, convert r, gm_convert r}" for c
  proof (cases c)
    case CommandThrows
    then show ?thesis by simp
  next
    case (ImageFiles files)
    with assms that have "files = [] \<or> length files = ?n" by blast
    with ImageFiles show ?thesis by auto
  qed
  have rejected: "(\<exists>files. c = ImageFiles files \<and> files \<noteq> []) \<longleftrightarrow>
      \<not> (c = CommandThrows \<or> c = ImageFiles [])" for c :: "'a command_result"
    by (cases c) auto
  define st1 where "st1 = method1_pdf2pic r ?n"
  define st2 where "st2 = method_command (magick r) st1"
  define st3 where "st3 = method_command (convert r) st2"
  define st4 where "st4 = method_command (gm_convert r) st3"
  define st5 where "st5 = method5_puppeteer r ?n st4"
  have 1: "fst st1 \<longrightarrow> length (snd st1) = ?n"
    unfolding st1_def using method1_count [of r ?n] by blast
  have 2: "fst st2 \<longleftrightarrow> fst st1 \<or> (\<exists>files. magick r = ImageFiles files \<and> files \<noteq> [])"
    "fst st2 \<longrightarrow> length (snd st2) = ?n"
    unfolding st2_def by (rule method_command_exact [OF exact 1], simp)+
  have 3: "fst st3 \<longleftrightarrow> fst st2 \<or> (\<exists>files. convert r = ImageFiles files \<and> files \<noteq> [])"
    "fst st3 \<longrightarrow> length (snd st3) = ?n"
    unfolding st3_def by (rule method_command_exact [OF exact 2(2)], simp)+
  have 4: "fst st4 \<longleftrightarrow> fst st3 \<or> (\<exists>files. gm_convert r = ImageFiles files \<and> files \<noteq> [])"
    "fst st4 \<longrightarrow> length (snd st4) = ?n"
    unfolding st4_def by (rule method_command_exact [OF exact 3(2)], simp)+
  have 5: "fst st5 \<longleftrightarrow> fst st4 \<or> fst (method5_puppeteer r ?n (False, []))"
    "fst st5 \<longrightarrow> length (snd st5) = ?n"
  proof -
    show "fst st5 \<longleftrightarrow> fst st4 \<or> fst (method5_puppeteer r ?n (False, []))"
    proof (cases st4)
      case (Pair s images)
      show ?thesis
      proof (cases s)
        case True
        with Pair show ?thesis by (simp add: st5_def method5_done)
      next
        case False
        with Pair method5_fresh [of r ?n images] show ?thesis by (simp add: st5_def)
      qed
    qed
    show "fst st5 \<longrightarrow> length (snd st5) = ?n"
      unfolding st5_def using 4(2) method5_count [of r ?n "snd st4"]
      by (cases st4; cases "fst st4") (auto simp: method5_done)
  qed
  have ras: "rasterize r ?n =
      (if \<not> fst st5 \<or> length (snd st5) = 0 then Inl (conversion_failed ?n (length (snd st5)))
       else Inr (snd st5))"
    unfolding st5_def st4_def st3_def st2_def st1_def
    by (simp add: rasterize_def split_def)
  have a: "fst (method1_pdf2pic r ?n) \<longrightarrow> length (snd (method1_pdf2pic r ?n)) = ?n"
    using method1_count [of r ?n] by blast
  have b: "\<forall>images. fst (method5_puppeteer r ?n (False, images)) \<longrightarrow>
            length (snd (method5_puppeteer r ?n (False, images))) = ?n"
    using method5_count [of r ?n] by blast
  have c: "\<forall>images. rasterize r ?n = Inr images \<longrightarrow> length images = ?n"
    using ras 5(2) by (auto split: if_splits)
  have accepted: "fst st5 \<longleftrightarrow>
      \<not> (\<not> fst (method1_pdf2pic r ?n) \<and>
         (\<forall>c\<in>{magick r, convert r, gm_convert r}. c = CommandThrows \<or> c = ImageFiles []) \<and>
         \<not> fst (method5_puppeteer r ?n (False, [])))"
    unfolding 5(1) 4(1) 3(1) 2(1) rejected st1_def by auto
  have d: "isl (rasterize r ?n) \<longleftrightarrow>
            ?n = 0 \<or>
            (\<not> fst (method1_pdf2pic r ?n) \<and>
             (\<forall>c\<in>{magick r, convert r, gm_convert r}. c = CommandThrows \<or> c = ImageFiles []) \<and>
             \<not> fst (method5_puppeteer r ?n (False, [])))"
  proof (cases "fst st5")
    case True
    with 5(2) have "length (snd st5) = ?n" by simp
    with True ras accepted show ?thesis by auto
  next
    case False
    with ras accepted show ?thesis by auto
  qed
  from a b c d show ?thesis by blast
qed

text \<open>
  On the first run pdf2pic's count (none for four pages) is not accepted, \<open>magick\<close>'s
  empty listing is not accepted, and \<open>convert\<close>'s four files are: they are the images
  handed on. On the second run no method is accepted and the conversion fails.
\<close>

theorem rasterizer_acceptance_witness:
  "\<not> fst (method1_pdf2pic fallthrough_converters 4) \<and>
   magick fallthrough_converters = ImageFiles [] \<and>
   convert fallthrough_converters = ImageFiles [100, 101, 102, 103] \<and>
   rasterize fallthrough_converters 4 = Inr [100, 101, 102, 103] \<and>
   length (projr (rasterize fallthrough_converters 4)) = 4 \<and>
   \<not> isl (rasterize fallthrough_converters 4) \<and>
   isl (rasterize exhausted_converters 4)"
proof -
  have pages: "[1..<4 + 1] = [1, 2, 3, 4::nat]" by code_simp
  have m1: "method1_pdf2pic fallthrough_converters 4 = (False, [])"
    using pages by (simp add: method1_pdf2pic_def fallthrough_converters_def)
  have cmds: "magick fallthrough_converters = ImageFiles []"
    "convert fallthrough_converters = ImageFiles [100, 101, 102, 103]"
    "gm_convert fallthrough_converters = CommandThrows"
    by (simp_all add: fallthrough_converters_def)
  have run: "rasterize fallthrough_converters 4 = Inr [100, 101, 102, 103]"
    by (simp add: rasterize_def m1 cmds method_command_files method_command_done method5_done)
  have exact: "\<forall>c\<in>{magick fallthrough_converters, convert fallthrough_converters,
        gm_convert fallthrough_converters}.
      \<forall>files. c = ImageFiles files \<longrightarrow> files = [] \<or> length files = 4"
    by (simp add: cmds)
  from rasterizer_acceptance [OF exact]
  have len: "\<forall>images. rasterize fallthrough_converters 4 = Inr images \<longrightarrow> length images = 4"
    and fails: "isl (rasterize fallthrough_converters 4) \<longleftrightarrow>
            (4::nat) = 0 \<or>
            (\<not> fst (method1_pdf2pic fallthrough_converters 4) \<and>
             (\<forall>c\<in>{magick fallthrough_converters, convert fallthrough_converters,
                  gm_convert fallthrough_converters}.
                c = CommandThrows \<or> c = ImageFiles []) \<and>
             \<not> fst (method5_puppeteer fallthrough_converters 4 (False, [])))"
    by blast+
  from len run have l4: "length (projr (rasterize fallthrough_converters 4)) = 4"
    by simp
  from fails have ok: "\<not> isl (rasterize fallthrough_converters 4)"
    by (simp add: cmds)
  have m1': "\<not> fst (method1_pdf2pic exhausted_converters 4)"
    using pages by (simp add: method1_pdf2pic_def exhausted_converters_def)
  have cmds': "magick exhausted_converters = CommandThrows"
    "convert exhausted_converters = ImageFiles []"
    "gm_convert exhausted_converters = CommandThrows"
    by (simp_all add: exhausted_converters_def)
  have m5': "\<not> fst (method5_puppeteer exhausted_converters 4 (False, []))"
  proof -
    have "[0..<4] = [0, 1, 2, 3::nat]" by code_simp
    then show ?thesis
      by (simp add: method5_puppeteer_def exhausted_converters_def)
  qed
  have exact': "\<forall>c\<in>{magick exhausted_converters, convert exhausted_converters,
        gm_convert exhausted_converters}.
      \<forall>files. c = ImageFiles files \<longrightarrow> files = [] \<or> length files = 4"
    by (simp add: cmds')
  from rasterizer_acceptance [OF exact']
  have "isl (rasterize exhausted_converters 4) \<longleftrightarrow>
            (4::nat) = 0 \<or>
            (\<not> fst (method1_pdf2pic exhausted_converters 4) \<and>
             (\<forall>c\<in>{magick exhausted_converters, convert exhausted_converters,
                  gm_convert exhausted_converters}.
                c = CommandThrows \<or> c = ImageFiles []) \<and>
             \<not> fst (method5_puppeteer exhausted_converters 4 (False, [])))"
    by blast
  with m1' m5' have bad: "isl (rasterize exhausted_converters 4)"
    by (simp add: cmds')
  from m1 cmds(1,2) run l4 ok bad show ?thesis
    by simp
qed

section \<open>Code-fence stripping on a single line\<close>

lemma split_nl_not_Nil: "split_nl s \<noteq> []"
  by (induction s) (auto split: list.splits)

lemma split_nl_single: "tl (split_nl s) = [] \<longleftrightarrow> CHR 0x0A \<notin> set s"
proof (induction s)
  case Nil
  then show ?case by simp
next
  case (Cons c s)
  then show ?case
    using split_nl_not_Nil [of s] by (auto split: list.splits)
qed

text \<open>The step throws exactly on the texts that start with the fence and have no line break.\<close>

lemma clean_code_blocks_throws:
  "clean_code_blocks text = Inl e \<longleftrightarrow>
     prefix fence text \<and> CHR 0x0A \<notin> set text \<and> e = undefined_trim"
  by (auto simp: clean_code_blocks_def Let_def split_nl_single)

text \<open>
  Claim C10 fails on the code. On a response whose trimmed text is the single line
  \<open>```\<close> (or any text that starts with the fence and has no line break, such as
  \<open>```json\<close>), the step throws a \<open>TypeError\<close>; the worker's promise rejects and the
  attempt of its chunk fails.
\<close>

theorem fence_only_response_throws:
  "clean_code_blocks (js_trim ''```'') = Inl undefined_trim \<and>
   clean_code_blocks (js_trim ''  ```json '') = Inl undefined_trim \<and>
   page_worker \<lparr>generateContent = (\<lambda>img p a. Inr ''```''), settle_time = (\<lambda>p a. 0)\<rparr>
     (10::nat) 1 1 = Inl undefined_trim \<and>
   attempt_chunk \<lparr>generateContent = (\<lambda>img p a. Inr ''```''), settle_time = (\<lambda>p a. 0)\<rparr>
     0 [10::nat] 1 = Inl undefined_trim"
  by code_simp

end
